theory Spec2Isabelle
  imports Main "HOL-Library.Word" "HOL-Library.Multiset"
begin

section \<open>Machine integers, raw arrays and process exits\<close>

text \<open>
  \<^verbatim>\<open>uint32_t\<close> values (field elements, random words) are 32-bit words and the loop
  counter \<^verbatim>\<open>uint64_t it\<close> of \<^verbatim>\<open>decode\<close> is a 64-bit word. C \<^verbatim>\<open>int\<close> values are
  mathematical integers: the sources compare them and count \<^verbatim>\<open>x++\<close> up to a bound that
  is itself an \<^verbatim>\<open>int\<close>, which cannot overflow. The one exception is the vote counter
  \<^verbatim>\<open>result[f0]++\<close>. Its overflow is undefined behaviour in C++; the model writes out the
  two's-complement wrap-around (\<open>int32\<close>), which is what the addition does on the
  machine. Conversions to unsigned types are written out as \<open>mod\<close>.
\<close>

type_synonym u32 = "32 word"
type_synonym u8 = "8 word"

definition int32 :: "int \<Rightarrow> int" where
  "int32 v = (v + 2 ^ 31) mod 2 ^ 32 - 2 ^ 31"

definition uint32 :: "int \<Rightarrow> int" where
  "uint32 v = v mod 2 ^ 32"

definition size_t :: "int \<Rightarrow> int" where
  "size_t v = v mod 2 ^ 64"

definition INT_MAX :: int where
  "INT_MAX = 2 ^ 31 - 1"

text \<open>
  Every way the sources leave a function other than by \<^verbatim>\<open>return\<close>: the
  \<^verbatim>\<open>exit(EXIT_FAILURE)\<close> calls (one constructor per diagnostic), the \<^verbatim>\<open>throw 1\<close> of
  \<^verbatim>\<open>Permutation::eval\<close>, and an access outside an allocated array or a division by
  zero, which are undefined behaviour in C++ and stop the model.
\<close>

datatype error =
    OutOfMemory
  | OutOfBounds
  | DimensionNegative
  | InvalidArgument
  | DimensionsDiffer
  | TooManyPoints
  | UnreasonableParameters
  | NotEnrolled
  | StillEncrypted
  | SlowDownNotSupported
  | DivisionByZero

definition array_read :: "'a list \<Rightarrow> int \<Rightarrow> error + 'a" where
  "array_read xs i =
     (if 0 \<le> i \<and> i < int (length xs) then Inr (xs ! nat i) else Inl OutOfBounds)"

definition array_store :: "'a list \<Rightarrow> int \<Rightarrow> 'a \<Rightarrow> error + 'a list" where
  "array_store xs i v =
     (if 0 \<le> i \<and> i < int (length xs) then Inr (xs[nat i := v]) else Inl OutOfBounds)"

section \<open>FuzzyVaultBrake: the collaborators\<close>

text \<open>
  \<^verbatim>\<open>FuzzyVaultBrake.cpp\<close> calls code that is not part of the three source files: the
  constant \<^verbatim>\<open>RAND_MAX\<close>, \<^verbatim>\<open>malloc\<close>, \<^verbatim>\<open>FuzzyVaultTools::fastChooseIndicesAtRandom\<close>
  and \<^verbatim>\<open>SmallBinaryFieldPolynomial\<close>'s \<^verbatim>\<open>interpolate\<close>, \<^verbatim>\<open>eval\<close>, degree and
  constructor (the zero polynomial of the field). They are parameters of the model.
  \<open>'p\<close> is the type of polynomials and \<open>'g\<close> the state of the process-wide random
  generator, threaded through every call that draws from it. \<open>malloc_ok sz\<close> says whether
  \<^verbatim>\<open>malloc(sz)\<close> returns a block; the three arrays of \<^verbatim>\<open>decode\<close> are requested with the
  same size \<^verbatim>\<open>k * sizeof(uint32_t)\<close>. \<^verbatim>\<open>interpolate(a, b, k)\<close> overwrites the candidate
  polynomial, so it is a function of the \<open>k\<close> points; \<^verbatim>\<open>ensureCapacity\<close> only reserves
  storage for it and has no counterpart in the model.
\<close>

record ('p, 'g) collab =
  RAND_MAX :: int
  malloc_ok :: "int \<Rightarrow> bool"
  fastChooseIndicesAtRandom :: "'g \<Rightarrow> int \<Rightarrow> int \<Rightarrow> int list \<times> 'g"
  interpolate :: "u32 list \<Rightarrow> u32 list \<Rightarrow> int \<Rightarrow> 'p"
  poly_eval :: "'p \<Rightarrow> u32 \<Rightarrow> u32"
  poly_deg :: "'p \<Rightarrow> int"
  poly_zero :: "'p"

section \<open>FuzzyVaultBrake::decode\<close>

text \<open>
  The locals of \<^verbatim>\<open>decode\<close> that live across iterations: the vote table
  \<^verbatim>\<open>unordered_map<uint32_t, int> result\<close>, the pair \<^verbatim>\<open>max\<close> and the output
  parameter \<^verbatim>\<open>f\<close>.
\<close>

record 'p decode_state =
  st_result :: "u32 \<rightharpoonup> int"
  st_max :: "u32 \<times> int"
  st_f :: "'p"

text \<open>
  The inner loop \<^verbatim>\<open>for (int i = 0; i < k; i++) { j = indices[i]; a[i] = x[j]; b[i] = y[j]; }\<close>.
  \<open>a\<close> and \<open>b\<close> are the entries written so far.
\<close>

function gather ::
  "u32 list \<Rightarrow> u32 list \<Rightarrow> int list \<Rightarrow> int \<Rightarrow> int \<Rightarrow> u32 list \<Rightarrow> u32 list
     \<Rightarrow> error + (u32 list \<times> u32 list)" where
  "gather x y indices i k a b =
     (if i < k then
        (case array_read indices i of
           Inl e \<Rightarrow> Inl e
         | Inr j \<Rightarrow>
             (case array_read x j of
                Inl e \<Rightarrow> Inl e
              | Inr xj \<Rightarrow>
                  (case array_read y j of
                     Inl e \<Rightarrow> Inl e
                   | Inr yj \<Rightarrow> gather x y indices (i + 1) k (a @ [xj]) (b @ [yj]))))
      else Inr (a, b))"
  by pat_completeness auto
termination
  by (relation "measure (\<lambda>(x, y, indices, i, k, a, b). nat (k - i))") auto

declare gather.simps [simp del]

text \<open>Lines 138--145: \<^verbatim>\<open>if (result.count(f0) == 0) result[f0] = 1; else result[f0]++;\<close>\<close>

definition tally :: "(u32 \<rightharpoonup> int) \<Rightarrow> u32 \<Rightarrow> (u32 \<rightharpoonup> int)" where
  "tally result f0 =
     (case result f0 of
        None \<Rightarrow> result(f0 \<mapsto> 1)
      | Some c \<Rightarrow> result(f0 \<mapsto> int32 (c + 1)))"

text \<open>Reading \<^verbatim>\<open>result[f0]\<close>: a key that is absent reads as the value-initialised 0.\<close>

definition map_at :: "(u32 \<rightharpoonup> int) \<Rightarrow> u32 \<Rightarrow> int" where
  "map_at result f0 = (case result f0 of None \<Rightarrow> 0 | Some c \<Rightarrow> c)"

text \<open>Lines 147--151: the leader update.\<close>

definition update_leader :: "'p decode_state \<Rightarrow> u32 \<Rightarrow> 'p \<Rightarrow> 'p decode_state" where
  "update_leader s f0 candidatePolynomial =
     (if snd (st_max s) = - 1 \<or> (f0 \<noteq> fst (st_max s) \<and> map_at (st_result s) f0 > snd (st_max s))
      then s\<lparr>st_max := (f0, map_at (st_result s) f0), st_f := candidatePolynomial\<rparr>
      else s)"

text \<open>Lines 136--151: what one iteration does with its candidate polynomial.\<close>

definition vote :: "('p, 'g) collab \<Rightarrow> 'p decode_state \<Rightarrow> 'p \<Rightarrow> 'p decode_state" where
  "vote env s candidatePolynomial =
     (let f0 = poly_eval env candidatePolynomial 0
      in update_leader (s\<lparr>st_result := tally (st_result s) f0\<rparr>) f0 candidatePolynomial)"

text \<open>Lines 123--151: the body of the main loop.\<close>

definition decode_iteration ::
  "('p, 'g) collab \<Rightarrow> u32 list \<Rightarrow> u32 list \<Rightarrow> int \<Rightarrow> int \<Rightarrow> 'p decode_state \<Rightarrow> 'g
     \<Rightarrow> error + ('p decode_state \<times> 'g)" where
  "decode_iteration env x y n k s g =
     (case fastChooseIndicesAtRandom env g n k of
        (indices, g') \<Rightarrow>
          (case gather x y indices 0 k [] [] of
             Inl e \<Rightarrow> Inl e
           | Inr (a, b) \<Rightarrow> Inr (vote env s (interpolate env a b k), g')))"

text \<open>
  \<^verbatim>\<open>for (uint64_t it = 0; it < maxIts; it++)\<close>: \<open>bound\<close> is \<^verbatim>\<open>maxIts\<close> after the usual
  arithmetic conversion of the \<^verbatim>\<open>int\<close> to \<^verbatim>\<open>uint64_t\<close>. The loop returns the final
  counter with the state. It terminates: the counter is below the bound when it is
  incremented, so it does not wrap.
\<close>

function decode_loop ::
  "('p, 'g) collab \<Rightarrow> u32 list \<Rightarrow> u32 list \<Rightarrow> int \<Rightarrow> int \<Rightarrow> 64 word \<Rightarrow> 64 word
     \<Rightarrow> 'p decode_state \<Rightarrow> 'g \<Rightarrow> error + (64 word \<times> 'p decode_state \<times> 'g)" where
  "decode_loop env x y n k bound it s g =
     (if it < bound then
        (case decode_iteration env x y n k s g of
           Inl e \<Rightarrow> Inl e
         | Inr (s', g') \<Rightarrow> decode_loop env x y n k bound (it + 1) s' g')
      else Inr (it, s, g))"
  by pat_completeness auto
termination
proof (relation "measure (\<lambda>(env, x, y, n, k, bound, it, s, g). unat bound - unat it)")
  show "wf (measure (\<lambda>(env, x, y, n, k, bound, it, s, g). unat bound - unat it))"
    by simp
next
  fix env :: "('p, 'g) collab" and x y :: "u32 list" and n k :: int
    and bound it :: "64 word" and s :: "'p decode_state" and g :: 'g
    and x2 :: "'p decode_state \<times> 'g" and xa :: "'p decode_state" and ya :: 'g
  assume lt: "it < bound"
  have "it \<noteq> - 1"
    using lt by (metis word_order.extremum_strict)
  then have "1 + it \<noteq> 0"
    by (metis add_eq_0_iff)
  then have "unat (it + 1) = Suc (unat it)"
    by (simp add: unatSuc add.commute)
  moreover have "unat it < unat bound"
    using lt by (simp add: word_less_nat_alt)
  ultimately show "((env, x, y, n, k, bound, it + 1, xa, ya), (env, x, y, n, k, bound, it, s, g))
      \<in> measure (\<lambda>(env, x, y, n, k, bound, it, s, g). unat bound - unat it)"
    by simp
qed

declare decode_loop.simps [simp del]

text \<open>
  Lines 64--175. \<^verbatim>\<open>decode_run\<close> is the function up to its \<^verbatim>\<open>return\<close>, with the loop
  counter and the locals still in view; \<^verbatim>\<open>decode\<close> returns what the caller sees: the
  boolean \<^verbatim>\<open>true\<close> and the output parameter \<open>f\<close>. The locals \<^verbatim>\<open>sha\<close>, \<^verbatim>\<open>state\<close> and
  \<^verbatim>\<open>candidateHash\<close> are declared and never used; \<^verbatim>\<open>hash\<close> is a parameter that the body
  never mentions.
\<close>

definition decode_run ::
  "('p, 'g) collab \<Rightarrow> 'p \<Rightarrow> u32 list \<Rightarrow> u32 list \<Rightarrow> int \<Rightarrow> int \<Rightarrow> u8 list \<Rightarrow> int \<Rightarrow> 'g
     \<Rightarrow> error + (64 word \<times> 'p decode_state \<times> 'g)" where
  "decode_run env f x y n k hash maxIts g =
     (if n > RAND_MAX env then Inl TooManyPoints
      else if n \<le> 0 \<or> k \<le> 0 \<or> k > n then Inl UnreasonableParameters
      else if \<not> malloc_ok env (size_t (k * 4)) then Inl OutOfMemory
      else decode_loop env x y n k (word_of_int maxIts) 0
             \<lparr>st_result = Map.empty, st_max = (0, - 1), st_f = f\<rparr> g)"

definition decode ::
  "('p, 'g) collab \<Rightarrow> 'p \<Rightarrow> u32 list \<Rightarrow> u32 list \<Rightarrow> int \<Rightarrow> int \<Rightarrow> u8 list \<Rightarrow> int \<Rightarrow> 'g
     \<Rightarrow> error + (bool \<times> 'p \<times> 'g)" where
  "decode env f x y n k hash maxIts g =
     (case decode_run env f x y n k hash maxIts g of
        Inl e \<Rightarrow> Inl e
      | Inr (it, s, g') \<Rightarrow> Inr (True, st_f s, g'))"

section \<open>FuzzyVaultBrake::open and getf0\<close>

text \<open>
  What \<^verbatim>\<open>open\<close> reads of the object it is called on. The members \<^verbatim>\<open>tmax\<close>, \<^verbatim>\<open>k\<close>,
  \<^verbatim>\<open>D\<close>, \<^verbatim>\<open>hash\<close> and \<^verbatim>\<open>slowDownFactor\<close> and the methods \<^verbatim>\<open>isEnrolled\<close>,
  \<^verbatim>\<open>isEncrypted\<close>, \<^verbatim>\<open>unpackVaultPolynomial\<close>, \<^verbatim>\<open>quantize\<close> and \<^verbatim>\<open>_reorder\<close> belong to
  the base class \<^verbatim>\<open>ProtectedMinutiaeTemplate\<close>, which is not among the source files: they
  are fields of the record. \<open>quantize view\<close> is the buffer \<open>B\<close> after the call together
  with the returned count \<open>t\<close>; \<open>'v\<close> is the type of minutiae views.
\<close>

record ('p, 'v) template =
  this_tmax :: int
  this_k :: int
  this_D :: int
  this_hash :: "u8 list"
  slowDownFactor :: int
  isEnrolled :: bool
  isEncrypted :: bool
  unpackVaultPolynomial :: "'p"
  quantize :: "'v \<Rightarrow> u32 list \<times> int"
  reorder :: "u32 \<Rightarrow> u32"

text \<open>
  Lines 231--236: \<^verbatim>\<open>for (int j = 0; j < t; j++) { x[j] = _reorder(B[j]); y[j] = V.eval(x[j]); }\<close>.
  \<open>x\<close> and \<open>y\<close> are the entries written so far.
\<close>

function unlocking_set ::
  "('p, 'g) collab \<Rightarrow> ('p, 'v) template \<Rightarrow> 'p \<Rightarrow> u32 list \<Rightarrow> int \<Rightarrow> int \<Rightarrow> u32 list \<Rightarrow> u32 list
     \<Rightarrow> error + (u32 list \<times> u32 list)" where
  "unlocking_set env this V B j t x y =
     (if j < t then
        (case array_read B j of
           Inl e \<Rightarrow> Inl e
         | Inr Bj \<Rightarrow>
             (let xj = reorder this Bj
              in unlocking_set env this V B (j + 1) t (x @ [xj]) (y @ [poly_eval env V xj])))
      else Inr (x, y))"
  by pat_completeness auto
termination
  by (relation "measure (\<lambda>(env, this, V, B, j, t, x, y). nat (t - j))") auto

declare unlocking_set.simps [simp del]

text \<open>
  Lines 177--246. The checks come in the order of the source: \<^verbatim>\<open>quantize\<close> runs first,
  the arrays \<open>x\<close> and \<open>y\<close> are allocated before the slow-down factor is looked at, and the
  result of \<^verbatim>\<open>decode\<close> is returned as it is.
\<close>

definition open_vault ::
  "('p, 'g) collab \<Rightarrow> ('p, 'v) template \<Rightarrow> 'p \<Rightarrow> 'v \<Rightarrow> 'g \<Rightarrow> error + (bool \<times> 'p \<times> 'g)" where
  "open_vault env this f view g =
     (if \<not> malloc_ok env (size_t (this_tmax this * 4)) then Inl OutOfMemory
      else
        (case quantize this view of
           (B, t) \<Rightarrow>
             if \<not> isEnrolled this then Inl NotEnrolled
             else if isEncrypted this then Inl StillEncrypted
             else if \<not> malloc_ok env (size_t (t * 4)) then Inl OutOfMemory
             else if slowDownFactor this \<noteq> 1 then Inl SlowDownNotSupported
             else
               (case unlocking_set env this (unpackVaultPolynomial this) B 0 t [] [] of
                  Inl e \<Rightarrow> Inl e
                | Inr (x, y) \<Rightarrow> decode env f x y t (this_k this) (this_hash this) (this_D this) g)))"

text \<open>
  Lines 39--48. \<^verbatim>\<open>open\<close> is a virtual method (the header declares it \<^verbatim>\<open>override\<close>),
  so the call \<^verbatim>\<open>open(f, view)\<close> in \<^verbatim>\<open>getf0\<close> runs the \<^verbatim>\<open>open\<close> of the object's class:
  \<open>getf0_calling\<close> is the body of \<^verbatim>\<open>getf0\<close> with that method as the parameter \<open>opn\<close>, and
  \<open>getf0\<close> is the body on a \<^verbatim>\<open>FuzzyVaultBrake\<close> object, where the method is the \<^verbatim>\<open>open\<close>
  above. \<^verbatim>\<open>return -1\<close> in a function returning \<^verbatim>\<open>uint32_t\<close> is the all-ones word
  \<open>0xFFFFFFFF\<close>.
\<close>

definition getf0_calling ::
  "('p \<Rightarrow> 'v \<Rightarrow> 'g \<Rightarrow> error + (bool \<times> 'p \<times> 'g)) \<Rightarrow> ('p, 'g) collab \<Rightarrow> 'v \<Rightarrow> 'g
     \<Rightarrow> error + (u32 \<times> 'g)" where
  "getf0_calling opn env view g =
     (case opn (poly_zero env) view g of
        Inl e \<Rightarrow> Inl e
      | Inr (success, f, g') \<Rightarrow> Inr (if \<not> success then - 1 else poly_eval env f 0, g'))"

definition getf0 ::
  "('p, 'g) collab \<Rightarrow> ('p, 'v) template \<Rightarrow> 'v \<Rightarrow> 'g \<Rightarrow> error + (u32 \<times> 'g)" where
  "getf0 env this view g = getf0_calling (open_vault env this) env view g"

section \<open>Permutation\<close>

text \<open>
  A \<^verbatim>\<open>Permutation\<close> object has the fields \<^verbatim>\<open>n\<close> and \<^verbatim>\<open>data\<close>; \<open>perm_data\<close> is the block
  that \<^verbatim>\<open>data\<close> points to (empty for \<^verbatim>\<open>NULL\<close>). Every object owns its block: the copy
  constructor copies the entries and \<^verbatim>\<open>swap\<close> exchanges the pointers, so no two objects
  share one.
\<close>

record Permutation =
  perm_n :: int
  perm_data :: "int list"

text \<open>
  Lines 69--87. \<open>fresh\<close> is what \<^verbatim>\<open>malloc\<close> returns when it is called: \<open>None\<close> for
  \<^verbatim>\<open>NULL\<close>, otherwise the contents of the new block, which the source does not
  initialise. The caller guarantees \<open>0 \<le> n\<close>.
\<close>

definition prepareDim :: "(nat \<Rightarrow> int) option \<Rightarrow> Permutation \<Rightarrow> int \<Rightarrow> error + Permutation" where
  "prepareDim fresh this n =
     (if perm_n this \<noteq> n then
        (if n \<noteq> 0 then
           (case fresh of
              None \<Rightarrow> Inl OutOfMemory
            | Some block \<Rightarrow> Inr \<lparr>perm_n = n, perm_data = map block [0..<nat n]\<rparr>)
         else Inr \<lparr>perm_n = n, perm_data = []\<rparr>)
      else Inr this)"

text \<open>Lines 215--217: \<^verbatim>\<open>for (int x = 0; x < n; x++) this->data[x] = x;\<close>\<close>

function setDimension_loop :: "int \<Rightarrow> int \<Rightarrow> int list \<Rightarrow> error + int list" where
  "setDimension_loop x n d =
     (if x < n then
        (case array_store d x x of
           Inl e \<Rightarrow> Inl e
         | Inr d' \<Rightarrow> setDimension_loop (x + 1) n d')
      else Inr d)"
  by pat_completeness auto
termination
  by (relation "measure (\<lambda>(x, n, d). nat (n - x))") auto

declare setDimension_loop.simps [simp del]

text \<open>Lines 204--218.\<close>

definition setDimension :: "(nat \<Rightarrow> int) option \<Rightarrow> Permutation \<Rightarrow> int \<Rightarrow> error + Permutation" where
  "setDimension fresh this n =
     (if n < 0 then Inl DimensionNegative
      else
        (case prepareDim fresh this n of
           Inl e \<Rightarrow> Inl e
         | Inr this' \<Rightarrow>
             (case setDimension_loop 0 n (perm_data this') of
                Inl e \<Rightarrow> Inl e
              | Inr d \<Rightarrow> Inr (this'\<lparr>perm_data := d\<rparr>))))"

text \<open>Lines 241--249: \<^verbatim>\<open>throw 1\<close> outside the range.\<close>

definition eval :: "Permutation \<Rightarrow> int \<Rightarrow> error + int" where
  "eval this x =
     (if x < 0 \<or> x \<ge> perm_n this then Inl InvalidArgument
      else array_read (perm_data this) x)"

text \<open>Lines 276--287.\<close>

definition exchange :: "Permutation \<Rightarrow> int \<Rightarrow> int \<Rightarrow> error + Permutation" where
  "exchange this x0 x1 =
     (case eval this x0 of
        Inl e \<Rightarrow> Inl e
      | Inr y0 \<Rightarrow>
          (case eval this x1 of
             Inl e \<Rightarrow> Inl e
           | Inr y1 \<Rightarrow>
               (case array_store (perm_data this) x0 y1 of
                  Inl e \<Rightarrow> Inl e
                | Inr d \<Rightarrow>
                    (case array_store d x1 y0 of
                       Inl e \<Rightarrow> Inl e
                     | Inr d' \<Rightarrow> Inr (this\<lparr>perm_data := d'\<rparr>)))))"

text \<open>
  Lines 300--308. \<^verbatim>\<open>MathTools::rand32\<close> is not among the source files: it is the
  parameter \<open>rand32\<close>, which returns a 32-bit word and the next state of the generator.
  \<^verbatim>\<open>rand32(tryRandom) % (uint32_t)n\<close> is an unsigned 32-bit remainder, converted to
  \<^verbatim>\<open>int\<close> for \<open>j\<close>.
\<close>

function random_loop ::
  "('g \<Rightarrow> bool \<Rightarrow> u32 \<times> 'g) \<Rightarrow> bool \<Rightarrow> int \<Rightarrow> int \<Rightarrow> Permutation \<Rightarrow> 'g
     \<Rightarrow> error + (Permutation \<times> 'g)" where
  "random_loop rand32 tryRandom i n this g =
     (if i < n then
        (case rand32 g tryRandom of
           (r, g') \<Rightarrow>
             if uint32 n = 0 then Inl DivisionByZero
             else
               (let j = int32 (uint r mod uint32 n)
                in (case exchange this i j of
                      Inl e \<Rightarrow> Inl e
                    | Inr this' \<Rightarrow> random_loop rand32 tryRandom (i + 1) n this' g')))
      else Inr (this, g))"
  by pat_completeness auto
termination
  by (relation "measure (\<lambda>(rand32, tryRandom, i, n, this, g). nat (n - i))") auto

declare random_loop.simps [simp del]

definition random ::
  "('g \<Rightarrow> bool \<Rightarrow> u32 \<times> 'g) \<Rightarrow> bool \<Rightarrow> Permutation \<Rightarrow> 'g \<Rightarrow> error + (Permutation \<times> 'g)" where
  "random rand32 tryRandom this g = random_loop rand32 tryRandom 0 (perm_n this) this g"

subsection \<open>The static functions, on a store of objects\<close>

text \<open>
  \<^verbatim>\<open>swap\<close>, \<^verbatim>\<open>mul\<close> and \<^verbatim>\<open>inv\<close> take references and compare their addresses. The store
  is the list of the live \<^verbatim>\<open>Permutation\<close> objects and a reference is an index into it. A
  local object is pushed at the end of the store and popped, as its destructor runs, when
  the function returns.
\<close>

type_synonym store = "Permutation list"

text \<open>Lines 321--334: four field assignments through a local \<open>n\<close> and \<open>data\<close>.\<close>

definition swap :: "store \<Rightarrow> nat \<Rightarrow> nat \<Rightarrow> store" where
  "swap h P Q =
     (let n = perm_n (h ! P);
          data = perm_data (h ! P);
          h1 = h[P := \<lparr>perm_n = perm_n (h ! Q), perm_data = perm_data (h ! Q)\<rparr>];
          h2 = h1[Q := \<lparr>perm_n = n, perm_data = data\<rparr>]
      in h2)"

text \<open>Lines 412--415: \<^verbatim>\<open>for (x = 0; x < n; x++) { y = P.eval(Q.eval(x)); R.data[x] = y; }\<close>\<close>

function mul_loop :: "int \<Rightarrow> int \<Rightarrow> store \<Rightarrow> nat \<Rightarrow> nat \<Rightarrow> nat \<Rightarrow> error + store" where
  "mul_loop x n h R P Q =
     (if x < n then
        (case eval (h ! Q) x of
           Inl e \<Rightarrow> Inl e
         | Inr qx \<Rightarrow>
             (case eval (h ! P) qx of
                Inl e \<Rightarrow> Inl e
              | Inr y \<Rightarrow>
                  (case array_store (perm_data (h ! R)) x y of
                     Inl e \<Rightarrow> Inl e
                   | Inr d \<Rightarrow> mul_loop (x + 1) n (h[R := (h ! R)\<lparr>perm_data := d\<rparr>]) R P Q)))
      else Inr h)"
  by pat_completeness auto
termination
  by (relation "measure (\<lambda>(x, n, h, R, P, Q). nat (n - x))") auto

declare mul_loop.simps [simp del]

text \<open>Lines 400--415: \<^verbatim>\<open>mul\<close> once \<open>R\<close> is known to be neither \<open>P\<close> nor \<open>Q\<close>.\<close>

definition mul_distinct :: "(nat \<Rightarrow> int) option \<Rightarrow> store \<Rightarrow> nat \<Rightarrow> nat \<Rightarrow> nat \<Rightarrow> error + store" where
  "mul_distinct fresh h R P Q =
     (let n = perm_n (h ! P)
      in if n \<noteq> perm_n (h ! Q) then Inl DimensionsDiffer
         else
           (case prepareDim fresh (h ! R) n of
              Inl e \<Rightarrow> Inl e
            | Inr R' \<Rightarrow> mul_loop 0 n (h[R := R']) R P Q))"

text \<open>
  Lines 389--416. When \<open>R\<close> is \<open>P\<close> or \<open>Q\<close> the source declares a local \<^verbatim>\<open>Permutation tR;\<close>
  (dimension 0, no block), calls itself with \<open>tR\<close> for \<open>R\<close>, which takes the other branch
  since \<open>tR\<close> is a new object, and swaps \<open>R\<close> with \<open>tR\<close>.
\<close>

definition mul :: "(nat \<Rightarrow> int) option \<Rightarrow> store \<Rightarrow> nat \<Rightarrow> nat \<Rightarrow> nat \<Rightarrow> error + store" where
  "mul fresh h R P Q =
     (if R = P \<or> R = Q then
        (let tR = length h
         in (case mul_distinct fresh (h @ [\<lparr>perm_n = 0, perm_data = []\<rparr>]) tR P Q of
               Inl e \<Rightarrow> Inl e
             | Inr h' \<Rightarrow> Inr (butlast (swap h' R tR))))
      else mul_distinct fresh h R P Q)"

text \<open>
  Lines 134--140 and 172--183: the copy constructor, an empty object assigned \<open>P\<close>
  (\<^verbatim>\<open>prepareDim\<close>, then \<^verbatim>\<open>memcpy\<close> of \<open>P.n\<close> entries).
\<close>

definition Permutation_copy :: "(nat \<Rightarrow> int) option \<Rightarrow> Permutation \<Rightarrow> error + Permutation" where
  "Permutation_copy fresh P =
     (case prepareDim fresh \<lparr>perm_n = 0, perm_data = []\<rparr> (perm_n P) of
        Inl e \<Rightarrow> Inl e
      | Inr this \<Rightarrow>
          Inr (this\<lparr>perm_data := take (nat (perm_n P)) (perm_data P)
                       @ drop (nat (perm_n P)) (perm_data this),
                    perm_n := perm_n P\<rparr>))"

text \<open>Lines 455--458: \<^verbatim>\<open>for (x = 0; x < n; x++) { y = P.eval(x); R.data[y] = x; }\<close>\<close>

function inv_loop :: "int \<Rightarrow> int \<Rightarrow> store \<Rightarrow> nat \<Rightarrow> nat \<Rightarrow> error + store" where
  "inv_loop x n h R P =
     (if x < n then
        (case eval (h ! P) x of
           Inl e \<Rightarrow> Inl e
         | Inr y \<Rightarrow>
             (case array_store (perm_data (h ! R)) y x of
                Inl e \<Rightarrow> Inl e
              | Inr d \<Rightarrow> inv_loop (x + 1) n (h[R := (h ! R)\<lparr>perm_data := d\<rparr>]) R P))
      else Inr h)"
  by pat_completeness auto
termination
  by (relation "measure (\<lambda>(x, n, h, R, P). nat (n - x))") auto

declare inv_loop.simps [simp del]

text \<open>Lines 449--458: \<^verbatim>\<open>inv\<close> once \<open>R\<close> is known not to be \<open>P\<close>.\<close>

definition inv_distinct :: "(nat \<Rightarrow> int) option \<Rightarrow> store \<Rightarrow> nat \<Rightarrow> nat \<Rightarrow> error + store" where
  "inv_distinct fresh h R P =
     (let n = perm_n (h ! P)
      in (case prepareDim fresh (h ! R) n of
            Inl e \<Rightarrow> Inl e
          | Inr R' \<Rightarrow> inv_loop 0 n (h[R := R']) R P))"

text \<open>
  Lines 439--459, \<^verbatim>\<open>Permutation::inv\<close> (HOL has an \<open>inv\<close> of its own). When \<open>R\<close> is \<open>P\<close> the source copies \<open>P\<close> into a local \<open>tP\<close> and calls
  itself with \<open>tP\<close> for \<open>P\<close>, which takes the other branch since \<open>tP\<close> is a new object.
\<close>

definition inv_perm :: "(nat \<Rightarrow> int) option \<Rightarrow> store \<Rightarrow> nat \<Rightarrow> nat \<Rightarrow> error + store" where
  "inv_perm fresh h R P =
     (if R = P then
        (case Permutation_copy fresh (h ! P) of
           Inl e \<Rightarrow> Inl e
         | Inr tP \<Rightarrow>
             (case inv_distinct fresh (h @ [tP]) R (length h) of
                Inl e \<Rightarrow> Inl e
              | Inr h' \<Rightarrow> Inr (butlast h')))
      else inv_distinct fresh h R P)"

section \<open>Contracts of the collaborators and specification predicates\<close>

text \<open>
  What the theorems below ask of \<^verbatim>\<open>fastChooseIndicesAtRandom(indices, n, k)\<close>: from every
  generator state it fills \<open>indices\<close> with \<open>k\<close> entries, each an index into the \<open>n\<close>
  points. (The source's comment promises more, pairwise different indices; no theorem
  needs it.)
\<close>

definition sampler_in_range :: "('p, 'g) collab \<Rightarrow> int \<Rightarrow> int \<Rightarrow> bool" where
  "sampler_in_range env n k =
     (\<forall>g. int (length (fst (fastChooseIndicesAtRandom env g n k))) = k \<and>
          (\<forall>j \<in> set (fst (fastChooseIndicesAtRandom env g n k)). 0 \<le> j \<and> j < n))"

text \<open>The state of the generator after one call of the sampler.\<close>

definition after_draw :: "('p, 'g) collab \<Rightarrow> int \<Rightarrow> int \<Rightarrow> 'g \<Rightarrow> 'g" where
  "after_draw env n k g = snd (fastChooseIndicesAtRandom env g n k)"


text \<open>
  \<open>p\<close> is the interpolation polynomial of \<open>k\<close> points \<open>(x[j], y[j])\<close> of the unlocking set,
  \<open>j\<close> running over some \<open>k\<close> indices below \<open>n\<close>.
\<close>

definition sampled_interpolation ::
  "('p, 'g) collab \<Rightarrow> u32 list \<Rightarrow> u32 list \<Rightarrow> int \<Rightarrow> int \<Rightarrow> 'p \<Rightarrow> bool" where
  "sampled_interpolation env x y n k p =
     (\<exists>idx. int (length idx) = k \<and> (\<forall>j \<in> set idx. 0 \<le> j \<and> j < n) \<and>
        p = interpolate env (map (\<lambda>j. x ! nat j) idx) (map (\<lambda>j. y ! nat j) idx) k)"


text \<open>
  A \<^verbatim>\<open>Permutation\<close> object as the class builds it: the dimension is a non-negative
  \<^verbatim>\<open>int\<close> and the block has that many entries.
\<close>

definition wf_perm :: "Permutation \<Rightarrow> bool" where
  "wf_perm P = (0 \<le> perm_n P \<and> perm_n P \<le> INT_MAX \<and> int (length (perm_data P)) = perm_n P)"

text \<open>The value array holds each of \<open>0, \<dots>, n - 1\<close> exactly once.\<close>

definition is_bijection :: "Permutation \<Rightarrow> bool" where
  "is_bijection P = (wf_perm P \<and> mset (perm_data P) = mset (map int [0..<nat (perm_n P)]))"

definition valid_store :: "store \<Rightarrow> bool" where
  "valid_store h = (\<forall>i < length h. is_bijection (h ! i))"

section \<open>A concrete instance of the collaborators\<close>

text \<open>
  For evaluating the model on concrete inputs: polynomials are coefficient lists, the
  sampler walks round the indices starting at the generator state (a counter), and
  interpolation is that of a single point \<open>(a, b)\<close>, the constant polynomial \<open>b\<close>; the
  instance is used with \<open>k = 1\<close> only. Every allocation succeeds.
\<close>

definition demo_sampler :: "nat \<Rightarrow> int \<Rightarrow> int \<Rightarrow> int list \<times> nat" where
  "demo_sampler g n k = (map (\<lambda>i. (int g + int i) mod n) [0..<nat k], Suc g)"

definition demo_collab :: "(u32 list, nat) collab" where
  "demo_collab =
     \<lparr>RAND_MAX = 2147483647,
      malloc_ok = (\<lambda>sz. True),
      fastChooseIndicesAtRandom = demo_sampler,
      interpolate = (\<lambda>a b k. take 1 b),
      poly_eval = (\<lambda>p z. case p of [] \<Rightarrow> 0 | c # cs \<Rightarrow> c),
      poly_deg = (\<lambda>p. if p = [] \<or> hd p = 0 then - 1 else 0),
      poly_zero = []\<rparr>"

text \<open>
  A template over the instance: enrolled, decrypted, slow-down factor 1, \<open>k = 1\<close>, ten
  iterations; the quantizer returns the view itself, no reordering, and the vault
  polynomial is the constant 7.
\<close>

definition demo_template :: "(u32 list, u32 list) template" where
  "demo_template =
     \<lparr>this_tmax = 8,
      this_k = 1,
      this_D = 10,
      this_hash = [],
      slowDownFactor = 1,
      isEnrolled = True,
      isEncrypted = False,
      unpackVaultPolynomial = [7],
      quantize = (\<lambda>view. (view, int (length view))),
      reorder = (\<lambda>b. b)\<rparr>"


text \<open>A generator for \<^verbatim>\<open>rand32\<close>: a counter, multiplied and shifted.\<close>

definition demo_rand32 :: "nat \<Rightarrow> bool \<Rightarrow> u32 \<times> nat" where
  "demo_rand32 g tryRandom = (word_of_nat (g * 7 + 5), Suc g)"

section \<open>Properties of decode\<close>

lemma array_read_Inr: "0 \<le> i \<Longrightarrow> i < int (length xs) \<Longrightarrow> array_read xs i = Inr (xs ! nat i)"
  by (simp add: array_read_def)

lemma gather_in_range:
  "\<forall>j \<in> set indices. 0 \<le> j \<and> j < n \<Longrightarrow> n \<le> int (length x) \<Longrightarrow> n \<le> int (length y) \<Longrightarrow>
   0 \<le> i \<Longrightarrow> k \<le> int (length indices) \<Longrightarrow>
    gather x y indices i k a b =
      Inr (a @ map (\<lambda>j. x ! nat j) (take (nat (k - i)) (drop (nat i) indices)),
           b @ map (\<lambda>j. y ! nat j) (take (nat (k - i)) (drop (nat i) indices)))"
proof (induction x y indices i k a b rule: gather.induct)
  case (1 x y indices i k a b)
  show ?case
  proof (cases "i < k")
    case False
    then show ?thesis by (simp add: gather.simps [of x y indices i k a b])
  next
    case True
    have ii: "nat i < length indices" using True "1.prems" by linarith
    have rd: "array_read indices i = Inr (indices ! nat i)"
      using True "1.prems" by (simp add: array_read_def)
    have jr: "0 \<le> indices ! nat i \<and> indices ! nat i < n"
      using "1.prems"(1) ii by (meson nth_mem)
    have rx: "array_read x (indices ! nat i) = Inr (x ! nat (indices ! nat i))"
      using jr "1.prems"(2) by (simp add: array_read_def)
    have ry: "array_read y (indices ! nat i) = Inr (y ! nat (indices ! nat i))"
      using jr "1.prems"(3) by (simp add: array_read_def)
    have step: "take (nat (k - i)) (drop (nat i) indices) =
        indices ! nat i # take (nat (k - (i + 1))) (drop (nat (i + 1)) indices)"
    proof -
      have "nat (k - i) = Suc (nat (k - (i + 1)))" using True by linarith
      moreover have "drop (nat i) indices = indices ! nat i # drop (Suc (nat i)) indices"
        using ii by (simp add: Cons_nth_drop_Suc)
      moreover have "nat (i + 1) = Suc (nat i)" using "1.prems" by linarith
      ultimately show ?thesis by simp
    qed
    have ih: "gather x y indices (i + 1) k (a @ [x ! nat (indices ! nat i)]) (b @ [y ! nat (indices ! nat i)]) =
      Inr ((a @ [x ! nat (indices ! nat i)]) @ map (\<lambda>j. x ! nat j) (take (nat (k - (i + 1))) (drop (nat (i + 1)) indices)),
           (b @ [y ! nat (indices ! nat i)]) @ map (\<lambda>j. y ! nat j) (take (nat (k - (i + 1))) (drop (nat (i + 1)) indices)))"
      using "1.IH" [OF True rd rx ry] "1.prems" by simp
    show ?thesis
      by (simp add: gather.simps [of x y indices i k a b] True rd rx ry ih step)
  qed
qed

lemma decode_iteration_ok:
  assumes "sampler_in_range env n k" "n \<le> int (length x)" "n \<le> int (length y)"
  shows "\<exists>cand. decode_iteration env x y n k s g = Inr (vote env s cand, after_draw env n k g) \<and>
           sampled_interpolation env x y n k cand"
proof -
  obtain idx g' where dr: "fastChooseIndicesAtRandom env g n k = (idx, g')"
    by (cases "fastChooseIndicesAtRandom env g n k")
  have len: "int (length idx) = k" and rng: "\<forall>j \<in> set idx. 0 \<le> j \<and> j < n"
    using assms(1) dr unfolding sampler_in_range_def by (metis fst_conv)+
  have "gather x y idx 0 k [] [] =
      Inr ([] @ map (\<lambda>j. x ! nat j) (take (nat (k - 0)) (drop (nat 0) idx)),
           [] @ map (\<lambda>j. y ! nat j) (take (nat (k - 0)) (drop (nat 0) idx)))"
    using rng assms(2,3) len by (intro gather_in_range) simp_all
  moreover have "take (nat (k - 0)) (drop (nat 0) idx) = idx"
    using len by auto
  ultimately have ga: "gather x y idx 0 k [] [] =
      Inr (map (\<lambda>j. x ! nat j) idx, map (\<lambda>j. y ! nat j) idx)"
    by simp
  have "decode_iteration env x y n k s g =
      Inr (vote env s (interpolate env (map (\<lambda>j. x ! nat j) idx) (map (\<lambda>j. y ! nat j) idx) k), g')"
    by (simp add: decode_iteration_def dr ga)
  moreover have "sampled_interpolation env x y n k
      (interpolate env (map (\<lambda>j. x ! nat j) idx) (map (\<lambda>j. y ! nat j) idx) k)"
    unfolding sampled_interpolation_def using len rng by blast
  moreover have "after_draw env n k g = g'"
    by (simp add: after_draw_def dr)
  ultimately show ?thesis by blast
qed

lemma word64_succ: "(it :: 64 word) < bound \<Longrightarrow> unat (it + 1) = Suc (unat it) \<and> it + 1 \<le> bound"
proof -
  assume lt: "it < bound"
  have "it \<noteq> - 1"
    using lt by (metis word_order.extremum_strict)
  then have "1 + it \<noteq> 0"
    by (metis add_eq_0_iff)
  then have "unat (it + 1) = Suc (unat it)"
    by (simp add: unatSuc add.commute)
  then show ?thesis using lt by (simp add: inc_le)
qed

lemma decode_loop_total:
  assumes smp: "sampler_in_range env n k" and lx: "n \<le> int (length x)" and ly: "n \<le> int (length y)"
    and step: "\<And>it s cand. it < bound \<Longrightarrow> I it s \<Longrightarrow> sampled_interpolation env x y n k cand
                 \<Longrightarrow> I (it + 1) (vote env s cand)"
  shows "it \<le> bound \<Longrightarrow> I it s \<Longrightarrow>
    \<exists>s'. decode_loop env x y n k bound it s g =
            Inr (bound, s', (after_draw env n k ^^ (unat bound - unat it)) g) \<and> I bound s'"
proof (induction "unat bound - unat it" arbitrary: it s g)
  case 0
  then have "it = bound"
    by (simp add: word_le_nat_alt word_unat_eq_iff)
  then show ?case using "0.prems" by (simp add: decode_loop.simps [of env x y n k bound bound])
next
  case (Suc m)
  then have lt: "it < bound"
    by (simp add: word_less_nat_alt)
  note sc = word64_succ [OF lt]
  obtain cand where it1: "decode_iteration env x y n k s g = Inr (vote env s cand, after_draw env n k g)"
    and cd: "sampled_interpolation env x y n k cand"
    using decode_iteration_ok [OF smp lx ly] by blast
  have m: "m = unat bound - unat (it + 1)" using Suc.hyps(2) sc by simp
  have "\<exists>s'. decode_loop env x y n k bound (it + 1) (vote env s cand) (after_draw env n k g) =
            Inr (bound, s', (after_draw env n k ^^ (unat bound - unat (it + 1))) (after_draw env n k g)) \<and> I bound s'"
    using Suc.hyps(1) [OF m] sc step [OF lt Suc.prems(2) cd] by blast
  moreover have "(after_draw env n k ^^ (unat bound - unat (it + 1))) (after_draw env n k g) =
      (after_draw env n k ^^ (unat bound - unat it)) g"
    using m Suc.hyps(2) by (metis funpow_Suc_right o_apply)
  ultimately show ?case
    by (simp add: decode_loop.simps [of env x y n k bound it] lt it1)
qed

lemma vote_unset: "snd (st_max s) = - 1 \<Longrightarrow> st_f (vote env s cand) = cand"
  by (simp add: vote_def update_leader_def Let_def)

lemma vote_f_cases: "st_f (vote env s cand) = cand \<or> st_f (vote env s cand) = st_f s"
  by (simp add: vote_def update_leader_def Let_def)


lemma uint64_of_int: "uint (word_of_int m :: 64 word) = m mod 2 ^ 64"
  by (simp add: uint_word_of_int take_bit_eq_mod)

lemma unat64_of_int: "unat (word_of_int m :: 64 word) = nat (m mod 2 ^ 64)"
  by (simp add: unat_eq_nat_uint uint64_of_int)

lemma decode_run_total:
  assumes "0 < k" "k \<le> n" "n \<le> RAND_MAX env" "malloc_ok env (size_t (k * 4))"
    "n \<le> int (length x)" "n \<le> int (length y)" "sampler_in_range env n k"
  shows "\<exists>s. decode_run env f x y n k hash maxIts g =
            Inr (word_of_int maxIts, s, (after_draw env n k ^^ nat (maxIts mod 2 ^ 64)) g) \<and>
          (if (word_of_int maxIts :: 64 word) = 0 then s = \<lparr>st_result = Map.empty, st_max = (0, - 1), st_f = f\<rparr>
           else sampled_interpolation env x y n k (st_f s))"
proof -
  let ?bound = "word_of_int maxIts :: 64 word"
  let ?s0 = "\<lparr>st_result = Map.empty, st_max = (0 :: u32, - 1 :: int), st_f = f\<rparr>"
  let ?I = "\<lambda>(it :: 64 word) s. if it = 0 then s = ?s0 else sampled_interpolation env x y n k (st_f s)"
  have step: "?I (it + 1) (vote env s cand)"
    if "it < ?bound" "?I it s" "sampled_interpolation env x y n k cand" for it s cand
  proof -
    have nz: "it + 1 \<noteq> 0" using word64_succ [OF that(1)] by (metis Zero_not_Suc unat_0)
    have "sampled_interpolation env x y n k (st_f (vote env s cand))"
    proof (cases "it = 0")
      case True
      then have "snd (st_max s) = - 1" using that(2) by simp
      then show ?thesis using vote_unset that(3) by metis
    next
      case False
      then show ?thesis using that(2,3) vote_f_cases [of env s cand] by auto
    qed
    then show ?thesis using nz by simp
  qed
  have "\<exists>s'. decode_loop env x y n k ?bound 0 ?s0 g =
            Inr (?bound, s', (after_draw env n k ^^ (unat ?bound - unat (0 :: 64 word))) g) \<and> ?I ?bound s'"
    by (rule decode_loop_total [where I = ?I, OF assms(7,5,6) step]) simp_all
  moreover have "decode_run env f x y n k hash maxIts g = decode_loop env x y n k ?bound 0 ?s0 g"
    using assms(1-4) by (simp add: decode_run_def)
  ultimately show ?thesis
    by (simp add: unat64_of_int)
qed

lemmas decode_eval_simps =
  decode_def decode_run_def decode_loop.simps decode_iteration_def gather.simps array_read_def
  vote_def update_leader_def tally_def map_at_def demo_collab_def demo_sampler_def int32_def
  size_t_def Let_def



text \<open>
  C2, as stated, fails: with \<open>maxIts = 0\<close> and valid \<open>n\<close>, \<open>k\<close> the call is not rejected.
  On one point, \<open>k = 1\<close> and the polynomial \<open>[9]\<close> passed in, \<^verbatim>\<open>decode\<close> returns \<^verbatim>\<open>true\<close>
  and \<open>f\<close> is still \<open>[9]\<close>.
\<close>

theorem decode_zero_budget_counterexample:
  "decode demo_collab [9] [1] [5] 1 1 [] 0 0 = Inr (True, [9], 0)"
  by (simp add: decode_eval_simps)

text \<open>
  C2, amended: \<^verbatim>\<open>decode\<close> does not validate \<open>maxIts\<close>. With \<open>maxIts = 0\<close>, \<open>0 < k \<le> n \<le>
  RAND_MAX\<close> and the allocation succeeding it runs no iteration, draws nothing from the
  generator, returns \<^verbatim>\<open>true\<close> and leaves \<open>f\<close> as it was passed in.
\<close>

theorem decode_zero_budget:
  assumes "0 < k" "k \<le> n" "n \<le> RAND_MAX env" "malloc_ok env (size_t (k * 4))"
  shows "decode env f x y n k hash 0 g = Inr (True, f, g)"
  using assms by (simp add: decode_def decode_run_def decode_loop.simps)

theorem decode_zero_budget_witness:
  "(0 :: int) < 1 \<and> (1 :: int) \<le> 1 \<and> 1 \<le> RAND_MAX demo_collab \<and> malloc_ok demo_collab (size_t (1 * 4)) \<and>
   decode demo_collab [9] [1] [5] 1 1 [] 0 0 = Inr (True, [9], 0)"
proof -
  have h: "(0 :: int) < 1" "(1 :: int) \<le> 1" "1 \<le> RAND_MAX demo_collab" "malloc_ok demo_collab (size_t (1 * 4))"
    by (simp_all add: demo_collab_def)
  show ?thesis
    using h decode_zero_budget [OF h, of "[9]" "[1]" "[5]" "[]" 0] by simp
qed

text \<open>
  C10: \<^verbatim>\<open>decode\<close> does not check the sign of \<open>maxIts\<close>. The loop compares the
  \<^verbatim>\<open>uint64_t\<close> counter with \<open>maxIts\<close> converted to \<^verbatim>\<open>uint64_t\<close>, so for a negative
  \<^verbatim>\<open>int\<close> \<open>maxIts\<close> (and valid \<open>n\<close>, \<open>k\<close>) the bound is \<open>maxIts mod 2^64 = 2^64 + maxIts\<close>:
  the call is not rejected, the loop runs until the counter has that value, calling the
  sampler that many times, and the function returns \<^verbatim>\<open>true\<close>.
\<close>

theorem decode_negative_budget:
  assumes "- (2 ^ 31) \<le> maxIts" "maxIts < 0"
    and "0 < k" "k \<le> n" "n \<le> RAND_MAX env" "malloc_ok env (size_t (k * 4))"
    and "int (length x) = n" "int (length y) = n" "sampler_in_range env n k"
  shows "uint (word_of_int maxIts :: 64 word) = maxIts mod 2 ^ 64 \<and>
         maxIts mod 2 ^ 64 = 2 ^ 64 + maxIts \<and>
         (\<exists>s. decode_run env f x y n k hash maxIts g =
                Inr (word_of_int maxIts, s, (after_draw env n k ^^ nat (2 ^ 64 + maxIts)) g) \<and>
              decode env f x y n k hash maxIts g =
                Inr (True, st_f s, (after_draw env n k ^^ nat (2 ^ 64 + maxIts)) g))"
proof -
  have m: "maxIts mod 2 ^ 64 = 2 ^ 64 + maxIts"
  proof -
    have "(2 ^ 64 + maxIts) mod 2 ^ 64 = 2 ^ 64 + maxIts"
      using assms(1,2) by (intro mod_pos_pos_trivial) simp_all
    then show ?thesis by simp
  qed
  obtain s where run: "decode_run env f x y n k hash maxIts g =
        Inr (word_of_int maxIts, s, (after_draw env n k ^^ nat (maxIts mod 2 ^ 64)) g)"
    using decode_run_total [of k n env x y f hash maxIts g] assms by auto
  have "decode env f x y n k hash maxIts g =
      Inr (True, st_f s, (after_draw env n k ^^ nat (maxIts mod 2 ^ 64)) g)"
    using run by (simp add: decode_def)
  then show ?thesis
    using run m uint64_of_int [of maxIts] by (metis (no_types, lifting))
qed

theorem decode_negative_budget_witness:
  "- (2 ^ 31) \<le> (- 1 :: int) \<and> (- 1 :: int) < 0 \<and> (0 :: int) < 1 \<and> (1 :: int) \<le> 1 \<and>
   1 \<le> RAND_MAX demo_collab \<and> malloc_ok demo_collab (size_t (1 * 4)) \<and>
   int (length [1 :: u32]) = 1 \<and> int (length [5 :: u32]) = 1 \<and> sampler_in_range demo_collab 1 1 \<and>
   uint (word_of_int (- 1) :: 64 word) = 18446744073709551615 \<and>
   (\<exists>s. decode_run demo_collab [] [1] [5] 1 1 [] (- 1) 0 =
          Inr (word_of_int (- 1), s, (after_draw demo_collab 1 1 ^^ nat (2 ^ 64 + - 1)) 0))"
proof -
  have h: "- (2 ^ 31) \<le> (- 1 :: int)" "(- 1 :: int) < 0" "(0 :: int) < 1" "(1 :: int) \<le> 1"
    "1 \<le> RAND_MAX demo_collab" "malloc_ok demo_collab (size_t (1 * 4))"
    "int (length [1 :: u32]) = 1" "int (length [5 :: u32]) = 1"
    by (simp_all add: demo_collab_def)
  have c: "sampler_in_range demo_collab 1 1"
    by (simp add: sampler_in_range_def demo_collab_def demo_sampler_def)
  note t = decode_negative_budget [OF h c, of "[]" "[]" 0]
  have u: "uint (word_of_int (- 1) :: 64 word) = 18446744073709551615"
    using t by simp
  have e: "\<exists>s. decode_run demo_collab [] [1] [5] 1 1 [] (- 1) 0 =
          Inr (word_of_int (- 1), s, (after_draw demo_collab 1 1 ^^ nat (2 ^ 64 + - 1)) 0)"
    using t by blast
  show ?thesis
    by (intro conjI h c u e)
qed



lemma int32_id: "- (2 ^ 31) \<le> v \<Longrightarrow> v < 2 ^ 31 \<Longrightarrow> int32 v = v"
  by (simp add: int32_def)





text \<open>
  C5: \<^verbatim>\<open>decode\<close> never reads the stored hash of the secret polynomial: two calls that
  differ only in the \<^verbatim>\<open>hash\<close> argument (same unlocking set, same \<open>n\<close>, \<open>k\<close>, \<open>maxIts\<close>,
  same generator state and hence the same random draws) return the same boolean, the
  same output polynomial and leave the generator in the same state. The function returns
  nothing else, so it cannot write a hash either.
\<close>

theorem decode_ignores_hash:
  "decode env f x y n k hash1 maxIts g = decode env f x y n k hash2 maxIts g"
  by (simp add: decode_def decode_run_def)

text \<open>
  C4: the stored leader count is written only when a value becomes the leader. A vote
  for the value that already leads is counted in the table but changes neither the stored
  count nor the polynomial; and whenever the stored pair changes, it changes to the
  candidate's value, which is new or replaces an unset leader. So the polynomial returned
  need not be one with the most votes: on five points with ordinates 7, 7, 7, 9, 9 and
  \<open>k = 1\<close>, the sampler of the concrete instance draws the points in turn, and after five
  iterations \<^verbatim>\<open>decode\<close> returns the polynomial with constant term 9, which has 2 votes,
  while 7 has 3 (the leader 7 kept the stored count 1, which the second vote for 9
  exceeded).
\<close>

theorem leader_count_not_refreshed:
  "(snd (st_max s) \<noteq> - 1 \<and> poly_eval env candidatePolynomial 0 = fst (st_max s) \<longrightarrow>
      st_max (vote env s candidatePolynomial) = st_max s \<and>
      st_f (vote env s candidatePolynomial) = st_f s \<and>
      st_result (vote env s candidatePolynomial) = tally (st_result s) (fst (st_max s))) \<and>
   (st_max (vote env s candidatePolynomial) \<noteq> st_max s \<longrightarrow>
      fst (st_max (vote env s candidatePolynomial)) = poly_eval env candidatePolynomial 0 \<and>
      st_f (vote env s candidatePolynomial) = candidatePolynomial \<and>
      (snd (st_max s) = - 1 \<or> poly_eval env candidatePolynomial 0 \<noteq> fst (st_max s))) \<and>
   (\<exists>s'. decode_run demo_collab [] [1, 2, 3, 4, 5] [7, 7, 7, 9, 9] 5 1 [] 5 0 = Inr (5, s', 5) \<and>
         decode demo_collab [] [1, 2, 3, 4, 5] [7, 7, 7, 9, 9] 5 1 [] 5 0 = Inr (True, st_f s', 5) \<and>
         st_f s' = [9] \<and> poly_eval demo_collab (st_f s') 0 = 9 \<and> st_max s' = (9, 2) \<and>
         map_at (st_result s') 9 = 2 \<and> map_at (st_result s') 7 = 3)"
proof -
  have a: "snd (st_max s) \<noteq> - 1 \<and> poly_eval env candidatePolynomial 0 = fst (st_max s) \<longrightarrow>
      st_max (vote env s candidatePolynomial) = st_max s \<and>
      st_f (vote env s candidatePolynomial) = st_f s \<and>
      st_result (vote env s candidatePolynomial) = tally (st_result s) (fst (st_max s))"
    by (simp add: vote_def update_leader_def Let_def)
  have b: "st_max (vote env s candidatePolynomial) \<noteq> st_max s \<longrightarrow>
      fst (st_max (vote env s candidatePolynomial)) = poly_eval env candidatePolynomial 0 \<and>
      st_f (vote env s candidatePolynomial) = candidatePolynomial \<and>
      (snd (st_max s) = - 1 \<or> poly_eval env candidatePolynomial 0 \<noteq> fst (st_max s))"
    by (simp add: vote_def update_leader_def Let_def)
  have run: "decode_run demo_collab [] [1, 2, 3, 4, 5] [7, 7, 7, 9, 9] 5 1 [] 5 0 =
      Inr (5, \<lparr>st_result = [7 \<mapsto> 3, 9 \<mapsto> 2], st_max = (9, 2), st_f = [9]\<rparr>, 5)"
    by (simp add: decode_eval_simps)
  have c: "\<exists>s'. decode_run demo_collab [] [1, 2, 3, 4, 5] [7, 7, 7, 9, 9] 5 1 [] 5 0 = Inr (5, s', 5) \<and>
         decode demo_collab [] [1, 2, 3, 4, 5] [7, 7, 7, 9, 9] 5 1 [] 5 0 = Inr (True, st_f s', 5) \<and>
         st_f s' = [9] \<and> poly_eval demo_collab (st_f s') 0 = 9 \<and> st_max s' = (9, 2) \<and>
         map_at (st_result s') 9 = 2 \<and> map_at (st_result s') 7 = 3"
  proof -
    have d: "decode demo_collab [] [1, 2, 3, 4, 5] [7, 7, 7, 9, 9] 5 1 [] 5 0 = Inr (True, [9], 5)"
      by (simp add: decode_def run)
    have e: "poly_eval demo_collab [9] 0 = 9"
      by (simp add: demo_collab_def)
    show ?thesis
      by (rule exI [of _ "\<lparr>st_result = [7 \<mapsto> 3, 9 \<mapsto> 2], st_max = (9, 2), st_f = [9]\<rparr>"])
         (simp add: run d e map_at_def)
  qed
  show ?thesis
    using a b c by blast
qed

theorem leader_count_not_refreshed_witness:
  "snd (st_max \<lparr>st_result = [7 \<mapsto> 2 :: int], st_max = (7 :: u32, 1 :: int), st_f = [7 :: u32]\<rparr>) \<noteq> - 1 \<and>
   poly_eval demo_collab [7] 0 = fst (st_max \<lparr>st_result = [7 \<mapsto> 2 :: int], st_max = (7 :: u32, 1 :: int), st_f = [7 :: u32]\<rparr>) \<and>
   vote demo_collab \<lparr>st_result = [7 \<mapsto> 2], st_max = (7, 1), st_f = [7]\<rparr> [7] =
     \<lparr>st_result = [7 \<mapsto> 3], st_max = (7, 1), st_f = [7]\<rparr> \<and>
   vote demo_collab \<lparr>st_result = [7 \<mapsto> 3], st_max = (7, 1), st_f = [7]\<rparr> [9] =
     \<lparr>st_result = [7 \<mapsto> 3, 9 \<mapsto> 1], st_max = (7, 1), st_f = [7]\<rparr> \<and>
   vote demo_collab \<lparr>st_result = [7 \<mapsto> 3, 9 \<mapsto> 1], st_max = (7, 1), st_f = [7]\<rparr> [9] =
     \<lparr>st_result = [7 \<mapsto> 3, 9 \<mapsto> 2], st_max = (9, 2), st_f = [9]\<rparr>"
proof -
  have h: "snd (st_max \<lparr>st_result = [7 \<mapsto> 2 :: int], st_max = (7 :: u32, 1 :: int), st_f = [7 :: u32]\<rparr>) \<noteq> - 1"
    "poly_eval demo_collab [7] 0 = fst (st_max \<lparr>st_result = [7 \<mapsto> 2 :: int], st_max = (7 :: u32, 1 :: int), st_f = [7 :: u32]\<rparr>)"
    by (simp_all add: demo_collab_def)
  have v: "vote demo_collab \<lparr>st_result = [7 \<mapsto> 2], st_max = (7, 1), st_f = [7]\<rparr> [7] =
     \<lparr>st_result = [7 \<mapsto> 3], st_max = (7, 1), st_f = [7]\<rparr>"
    "vote demo_collab \<lparr>st_result = [7 \<mapsto> 3], st_max = (7, 1), st_f = [7]\<rparr> [9] =
     \<lparr>st_result = [7 \<mapsto> 3, 9 \<mapsto> 1], st_max = (7, 1), st_f = [7]\<rparr>"
    "vote demo_collab \<lparr>st_result = [7 \<mapsto> 3, 9 \<mapsto> 1], st_max = (7, 1), st_f = [7]\<rparr> [9] =
     \<lparr>st_result = [7 \<mapsto> 3, 9 \<mapsto> 2], st_max = (9, 2), st_f = [9]\<rparr>"
    by (simp_all add: vote_def update_leader_def tally_def map_at_def demo_collab_def int32_def Let_def)
  show ?thesis
    using h v leader_count_not_refreshed [of "\<lparr>st_result = [7 \<mapsto> 2], st_max = (7, 1), st_f = [7]\<rparr>" demo_collab "[7]"]
    by simp
qed

section \<open>Properties of open and getf0\<close>

lemmas open_eval_simps =
  open_vault_def getf0_def getf0_calling_def unlocking_set.simps demo_template_def size_t_def

text \<open>
  C8: \<^verbatim>\<open>open\<close> stops with the error of the failed check, before any unlocking set is
  built and before \<^verbatim>\<open>decode\<close> is called, in each of three cases, the other checks
  passing and the allocations succeeding: the template is not enrolled; it is enrolled but
  still encrypted; it is enrolled and decrypted but its slow-down factor is not 1.
\<close>

theorem open_guards:
  "(malloc_ok env (size_t (this_tmax this * 4)) \<and> \<not> isEnrolled this
      \<longrightarrow> open_vault env this f view g = Inl NotEnrolled) \<and>
   (malloc_ok env (size_t (this_tmax this * 4)) \<and> isEnrolled this \<and> isEncrypted this
      \<longrightarrow> open_vault env this f view g = Inl StillEncrypted) \<and>
   (malloc_ok env (size_t (this_tmax this * 4)) \<and> malloc_ok env (size_t (snd (quantize this view) * 4)) \<and>
    isEnrolled this \<and> \<not> isEncrypted this \<and> slowDownFactor this \<noteq> 1
      \<longrightarrow> open_vault env this f view g = Inl SlowDownNotSupported)"
  by (simp add: open_vault_def split: prod.split)

theorem open_guards_witness:
  "malloc_ok demo_collab (size_t (this_tmax demo_template * 4)) \<and>
   malloc_ok demo_collab (size_t (snd (quantize demo_template [3, 4]) * 4)) \<and>
   \<not> isEnrolled (demo_template\<lparr>isEnrolled := False\<rparr>) \<and>
   open_vault demo_collab (demo_template\<lparr>isEnrolled := False\<rparr>) [] [3, 4] 0 = Inl NotEnrolled \<and>
   isEnrolled demo_template \<and> isEncrypted (demo_template\<lparr>isEncrypted := True\<rparr>) \<and>
   open_vault demo_collab (demo_template\<lparr>isEncrypted := True\<rparr>) [] [3, 4] 0 = Inl StillEncrypted \<and>
   \<not> isEncrypted demo_template \<and> slowDownFactor (demo_template\<lparr>slowDownFactor := 2\<rparr>) \<noteq> 1 \<and>
   open_vault demo_collab (demo_template\<lparr>slowDownFactor := 2\<rparr>) [] [3, 4] 0 = Inl SlowDownNotSupported \<and>
   open_vault demo_collab demo_template [] [3, 4] 0 = Inr (True, [7], 10)"
proof -
  have h: "malloc_ok demo_collab (size_t (this_tmax demo_template * 4))"
    "malloc_ok demo_collab (size_t (snd (quantize demo_template [3, 4]) * 4))"
    "\<not> isEnrolled (demo_template\<lparr>isEnrolled := False\<rparr>)"
    "isEnrolled demo_template" "isEncrypted (demo_template\<lparr>isEncrypted := True\<rparr>)"
    "\<not> isEncrypted demo_template" "slowDownFactor (demo_template\<lparr>slowDownFactor := 2\<rparr>) \<noteq> 1"
    by (simp_all add: demo_collab_def demo_template_def)
  have ok: "open_vault demo_collab demo_template [] [3, 4] 0 = Inr (True, [7], 10)"
    by (simp add: open_eval_simps array_read_def decode_eval_simps)
  show ?thesis
    using h ok
      open_guards [where env = demo_collab and this = "demo_template\<lparr>isEnrolled := False\<rparr>"
        and view = "[3, 4]" and f = "[]" and g = 0]
      open_guards [where env = demo_collab and this = "demo_template\<lparr>isEncrypted := True\<rparr>"
        and view = "[3, 4]" and f = "[]" and g = 0]
      open_guards [where env = demo_collab and this = "demo_template\<lparr>slowDownFactor := 2\<rparr>"
        and view = "[3, 4]" and f = "[]" and g = 0]
    by (simp add: demo_template_def demo_collab_def)
qed





section \<open>Properties of Permutation\<close>

lemma array_store_Inr:
  "0 \<le> i \<Longrightarrow> i < int (length xs) \<Longrightarrow> array_store xs i v = Inr (xs[nat i := v])"
  by (simp add: array_store_def)

lemma wf_perm_length: "wf_perm P \<Longrightarrow> length (perm_data P) = nat (perm_n P)"
  unfolding wf_perm_def by linarith

lemma bijection_iff:
  assumes "wf_perm P"
  shows "is_bijection P \<longleftrightarrow> distinct (perm_data P) \<and> (\<forall>v \<in> set (perm_data P). 0 \<le> v \<and> v < perm_n P)"
proof
  assume b: "is_bijection P"
  then have m: "mset (perm_data P) = mset (map int [0..<nat (perm_n P)])"
    by (simp add: is_bijection_def)
  have "distinct (map int [0..<nat (perm_n P)])"
    by (simp add: distinct_map)
  then have d: "distinct (perm_data P)"
    using m by (metis mset_eq_imp_distinct_iff)
  have "set (perm_data P) = set (map int [0..<nat (perm_n P)])"
    using m by (rule mset_eq_setD)
  then have "\<forall>v \<in> set (perm_data P). 0 \<le> v \<and> v < perm_n P"
    by auto
  then show "distinct (perm_data P) \<and> (\<forall>v \<in> set (perm_data P). 0 \<le> v \<and> v < perm_n P)"
    using d by simp
next
  assume a: "distinct (perm_data P) \<and> (\<forall>v \<in> set (perm_data P). 0 \<le> v \<and> v < perm_n P)"
  have len: "length (perm_data P) = nat (perm_n P)"
    using assms by (rule wf_perm_length)
  have sub: "set (perm_data P) \<subseteq> set (map int [0..<nat (perm_n P)])"
  proof
    fix v assume "v \<in> set (perm_data P)"
    then have "0 \<le> v \<and> v < perm_n P" using a by blast
    then have "v = int (nat v) \<and> nat v < nat (perm_n P)" by simp
    then show "v \<in> set (map int [0..<nat (perm_n P)])"
      by (metis atLeast0LessThan image_eqI lessThan_iff set_map set_upt)
  qed
  have "card (set (perm_data P)) = nat (perm_n P)"
    using a len by (simp add: distinct_card)
  moreover have "card (set (map int [0..<nat (perm_n P)])) = nat (perm_n P)"
  proof -
    have "distinct (map int [0..<nat (perm_n P)])"
      by (simp add: distinct_map)
    then have "card (set (map int [0..<nat (perm_n P)])) = length (map int [0..<nat (perm_n P)])"
      by (rule distinct_card)
    then show ?thesis by simp
  qed
  ultimately have "set (perm_data P) = set (map int [0..<nat (perm_n P)])"
    using sub by (metis List.finite_set card_subset_eq)
  then have "mset (perm_data P) = mset (map int [0..<nat (perm_n P)])"
    using a by (metis (no_types, lifting) distinct_map distinct_upt inj_on_def of_nat_eq_iff set_eq_iff_mset_eq_distinct)
  then show "is_bijection P"
    using assms by (simp add: is_bijection_def)
qed

lemma bijection_wf: "is_bijection P \<Longrightarrow> wf_perm P"
  by (simp add: is_bijection_def)

lemma bijection_nth:
  assumes "is_bijection P" "0 \<le> x" "x < perm_n P"
  shows "eval P x = Inr (perm_data P ! nat x)"
    and "0 \<le> perm_data P ! nat x" and "perm_data P ! nat x < perm_n P"
proof -
  have wf: "wf_perm P" using assms(1) by (rule bijection_wf)
  then have len: "int (length (perm_data P)) = perm_n P" by (simp add: wf_perm_def)
  show "eval P x = Inr (perm_data P ! nat x)"
    using assms(2,3) len by (simp add: eval_def array_read_def)
  have "perm_data P ! nat x \<in> set (perm_data P)"
    using assms(2,3) len by (intro nth_mem) linarith
  then show "0 \<le> perm_data P ! nat x" and "perm_data P ! nat x < perm_n P"
    using assms(1) wf by (simp_all add: bijection_iff)
qed

lemma bijection_inj:
  assumes "is_bijection P" "0 \<le> x" "x < perm_n P" "0 \<le> x'" "x' < perm_n P"
    and "perm_data P ! nat x = perm_data P ! nat x'"
  shows "x = x'"
proof -
  have wf: "wf_perm P" using assms(1) by (rule bijection_wf)
  then have len: "int (length (perm_data P)) = perm_n P" by (simp add: wf_perm_def)
  have "distinct (perm_data P)" using assms(1) wf by (simp add: bijection_iff)
  moreover have "nat x < length (perm_data P)" "nat x' < length (perm_data P)"
    using assms(2-5) len by linarith+
  ultimately have "nat x = nat x'"
    using assms(6) by (simp add: nth_eq_iff_index_eq)
  then show ?thesis using assms(2,4) by simp
qed

lemma bijection_surj:
  assumes "is_bijection P" "0 \<le> y" "y < perm_n P"
  shows "\<exists>x. 0 \<le> x \<and> x < perm_n P \<and> perm_data P ! nat x = y"
proof -
  have wf: "wf_perm P" using assms(1) by (rule bijection_wf)
  then have len: "length (perm_data P) = nat (perm_n P)" by (rule wf_perm_length)
  have "set (perm_data P) = set (map int [0..<nat (perm_n P)])"
    using assms(1) by (intro mset_eq_setD) (simp add: is_bijection_def)
  moreover have "y \<in> set (map int [0..<nat (perm_n P)])"
  proof -
    have "y = int (nat y) \<and> nat y < nat (perm_n P)" using assms(2,3) by simp
    then show ?thesis by (metis atLeast0LessThan image_eqI lessThan_iff set_map set_upt)
  qed
  ultimately have "y \<in> set (perm_data P)" by simp
  then obtain i where "i < length (perm_data P)" "perm_data P ! i = y"
    by (auto simp: in_set_conv_nth)
  then have "0 \<le> int i \<and> int i < perm_n P \<and> perm_data P ! nat (int i) = y"
    using len by simp
  then show ?thesis by blast
qed

lemma setDimension_loop_ok:
  "0 \<le> x \<Longrightarrow> x \<le> n \<Longrightarrow> n = int (length d) \<Longrightarrow> (\<forall>i < nat x. d ! i = int i) \<Longrightarrow>
     setDimension_loop x n d = Inr (map int [0..<nat n])"
proof (induction x n d rule: setDimension_loop.induct)
  case (1 x n d)
  show ?case
  proof (cases "x < n")
    case False
    then have xn: "x = n" using "1.prems" by simp
    have "d = map int [0..<nat n]"
      using "1.prems" xn by (intro nth_equalityI) auto
    moreover have "setDimension_loop x n d = Inr d"
      using False by (simp add: setDimension_loop.simps [of x n d])
    ultimately show ?thesis by simp
  next
    case True
    have st: "array_store d x x = Inr (d[nat x := x])"
      using True "1.prems" by (simp add: array_store_def)
    have pre: "\<forall>i < nat (x + 1). d[nat x := x] ! i = int i"
    proof (intro allI impI)
      fix i assume "i < nat (x + 1)"
      then have "i < nat x \<or> i = nat x" using "1.prems"(1) by linarith
      then show "d[nat x := x] ! i = int i"
        using "1.prems" True by (auto simp: nth_list_update)
    qed
    have "setDimension_loop (x + 1) n (d[nat x := x]) = Inr (map int [0..<nat n])"
      using "1.IH" [OF True st] "1.prems" True pre by simp
    then show ?thesis
      using True st by (simp add: setDimension_loop.simps [of x n d])
  qed
qed

lemma prepareDim_ok:
  assumes "wf_perm P" "0 \<le> m" "m \<le> INT_MAX"
  shows "\<exists>P'. prepareDim (Some block) P m = Inr P' \<and> wf_perm P' \<and> perm_n P' = m \<and>
           (perm_n P = m \<longrightarrow> P' = P)"
  using assms by (auto simp: prepareDim_def wf_perm_def)

lemma identity_is_bijection:
  "0 \<le> m \<Longrightarrow> m \<le> INT_MAX \<Longrightarrow> is_bijection \<lparr>perm_n = m, perm_data = map int [0..<nat m]\<rparr>"
  by (simp add: is_bijection_def wf_perm_def)

lemma setDimension_ok:
  assumes "wf_perm P" "0 \<le> m" "m \<le> INT_MAX"
  shows "setDimension (Some block) P m = Inr \<lparr>perm_n = m, perm_data = map int [0..<nat m]\<rparr>"
proof -
  obtain P' where p: "prepareDim (Some block) P m = Inr P'" "wf_perm P'" "perm_n P' = m"
    using prepareDim_ok [OF assms] by blast
  have len: "m = int (length (perm_data P'))"
    using p(2,3) by (simp add: wf_perm_def)
  have "setDimension_loop 0 m (perm_data P') = Inr (map int [0..<nat m])"
    using assms(2) len by (intro setDimension_loop_ok) simp_all
  moreover have "P'\<lparr>perm_data := map int [0..<nat m]\<rparr> = \<lparr>perm_n = m, perm_data = map int [0..<nat m]\<rparr>"
    using p(3) by (cases P') simp
  ultimately show ?thesis
    using assms(2) p(1) by (simp add: setDimension_def)
qed

lemma exchange_ok:
  assumes b: "is_bijection P" and r: "0 \<le> x0" "x0 < perm_n P" "0 \<le> x1" "x1 < perm_n P"
  shows "exchange P x0 x1 =
           Inr (P\<lparr>perm_data := (perm_data P)[nat x0 := perm_data P ! nat x1, nat x1 := perm_data P ! nat x0]\<rparr>)"
    and "is_bijection (P\<lparr>perm_data := (perm_data P)[nat x0 := perm_data P ! nat x1, nat x1 := perm_data P ! nat x0]\<rparr>)"
proof -
  have wf: "wf_perm P" using b by (rule bijection_wf)
  have len: "int (length (perm_data P)) = perm_n P" using wf by (simp add: wf_perm_def)
  have e0: "eval P x0 = Inr (perm_data P ! nat x0)" using bijection_nth(1) [OF b r(1,2)] .
  have e1: "eval P x1 = Inr (perm_data P ! nat x1)" using bijection_nth(1) [OF b r(3,4)] .
  have s0: "array_store (perm_data P) x0 (perm_data P ! nat x1) = Inr ((perm_data P)[nat x0 := perm_data P ! nat x1])"
    using r len by (simp add: array_store_def)
  have s1: "array_store ((perm_data P)[nat x0 := perm_data P ! nat x1]) x1 (perm_data P ! nat x0) =
      Inr ((perm_data P)[nat x0 := perm_data P ! nat x1, nat x1 := perm_data P ! nat x0])"
    using r len by (simp add: array_store_def)
  show "exchange P x0 x1 =
           Inr (P\<lparr>perm_data := (perm_data P)[nat x0 := perm_data P ! nat x1, nat x1 := perm_data P ! nat x0]\<rparr>)"
    by (simp add: exchange_def e0 e1 s0 s1)
  have "nat x1 < length (perm_data P)" "nat x0 < length (perm_data P)"
    using r len by linarith+
  then have "mset ((perm_data P)[nat x0 := perm_data P ! nat x1, nat x1 := perm_data P ! nat x0]) = mset (perm_data P)"
    by (rule mset_swap)
  then show "is_bijection (P\<lparr>perm_data := (perm_data P)[nat x0 := perm_data P ! nat x1, nat x1 := perm_data P ! nat x0]\<rparr>)"
    using b by (simp add: is_bijection_def wf_perm_def)
qed

lemma exchange_preserves:
  assumes "is_bijection P" "0 \<le> x0" "x0 < perm_n P" "0 \<le> x1" "x1 < perm_n P"
  shows "\<exists>P'. exchange P x0 x1 = Inr P' \<and> is_bijection P' \<and> perm_n P' = perm_n P"
  using exchange_ok [OF assms] by (metis (no_types, lifting) Permutation.select_convs(1) Permutation.surjective Permutation.update_convs(2))

lemma rand_index:
  assumes "0 < n" "n \<le> INT_MAX"
  shows "uint32 n \<noteq> 0 \<and> 0 \<le> int32 (uint (r :: u32) mod uint32 n) \<and> int32 (uint r mod uint32 n) < n"
proof -
  have n32: "uint32 n = n"
    using assms by (simp add: uint32_def INT_MAX_def)
  have nz: "uint32 n \<noteq> 0" using n32 assms by simp
  have m: "0 \<le> uint r mod n \<and> uint r mod n < n"
    using assms(1) by simp
  then have "int32 (uint r mod n) = uint r mod n"
    using assms(2) by (intro int32_id) (simp_all add: INT_MAX_def)
  then show ?thesis
    using m n32 nz by simp
qed

lemma random_loop_ok:
  "is_bijection P \<Longrightarrow> perm_n P = n \<Longrightarrow> 0 \<le> i \<Longrightarrow>
     \<exists>P' g'. random_loop rand32 tryRandom i n P g = Inr (P', g') \<and> is_bijection P' \<and> perm_n P' = n"
proof (induction rand32 tryRandom i n P g rule: random_loop.induct)
  case (1 rand32 tryRandom i n P g)
  show ?case
  proof (cases "i < n")
    case False
    then show ?thesis
      using "1.prems" by (simp add: random_loop.simps [of rand32 tryRandom i n P g])
  next
    case True
    obtain r g1 where rg: "rand32 g tryRandom = (r, g1)"
      by (cases "rand32 g tryRandom")
    have n: "0 < n" "n \<le> INT_MAX"
      using True "1.prems" bijection_wf [of P] by (auto simp: wf_perm_def)
    have ri: "uint32 n \<noteq> 0" "0 \<le> int32 (uint r mod uint32 n)" "int32 (uint r mod uint32 n) < n"
      using rand_index [OF n, of r] by simp_all
    obtain P1 where ex: "exchange P i (int32 (uint r mod uint32 n)) = Inr P1"
      and b1: "is_bijection P1" and n1: "perm_n P1 = n"
      using exchange_preserves [of P i "int32 (uint r mod uint32 n)"] "1.prems" True ri by auto
    have "\<exists>P' g'. random_loop rand32 tryRandom (i + 1) n P1 g1 = Inr (P', g') \<and> is_bijection P' \<and> perm_n P' = n"
      using "1.IH" [OF True rg [symmetric] ri(1) refl ex b1 n1] "1.prems" by simp
    then show ?thesis
      using True rg ri(1) ex by (simp add: random_loop.simps [of rand32 tryRandom i n P g] Let_def)
  qed
qed

lemma random_preserves:
  "is_bijection P \<Longrightarrow>
     \<exists>P' g'. random rand32 tryRandom P g = Inr (P', g') \<and> is_bijection P' \<and> perm_n P' = perm_n P"
  unfolding random_def by (rule random_loop_ok) simp_all

lemma inv_loop_ok:
  "R < length h \<Longrightarrow> P < length h \<Longrightarrow> R \<noteq> P \<Longrightarrow> is_bijection (h ! P) \<Longrightarrow> perm_n (h ! P) = n \<Longrightarrow>
   0 \<le> x \<Longrightarrow> x \<le> n \<Longrightarrow> length (perm_data (h ! R)) = nat n \<Longrightarrow>
   (\<forall>i. 0 \<le> i \<and> i < x \<longrightarrow> perm_data (h ! R) ! nat (perm_data (h ! P) ! nat i) = i) \<Longrightarrow>
     \<exists>d. inv_loop x n h R P = Inr (h[R := (h ! R)\<lparr>perm_data := d\<rparr>]) \<and> length d = nat n \<and>
         (\<forall>i. 0 \<le> i \<and> i < n \<longrightarrow> d ! nat (perm_data (h ! P) ! nat i) = i)"
proof (induction x n h R P rule: inv_loop.induct)
  case (1 x n h R P)
  show ?case
  proof (cases "x < n")
    case False
    then have xn: "x = n" using "1.prems" by simp
    have "inv_loop x n h R P = Inr (h[R := (h ! R)\<lparr>perm_data := perm_data (h ! R)\<rparr>])"
      using False by (simp add: inv_loop.simps [of x n h R P])
    then show ?thesis
      using "1.prems" xn by blast
  next
    case True
    let ?Pd = "perm_data (h ! P)"
    let ?y = "?Pd ! nat x"
    let ?d1 = "(perm_data (h ! R))[nat ?y := x]"
    let ?h1 = "h[R := (h ! R)\<lparr>perm_data := ?d1\<rparr>]"
    have b: "is_bijection (h ! P)" and np: "perm_n (h ! P) = n" using "1.prems" by simp_all
    have x0: "0 \<le> x" and xn: "x < perm_n (h ! P)" using "1.prems" True by simp_all
    have ev: "eval (h ! P) x = Inr ?y" using bijection_nth(1) [OF b x0 xn] .
    have yr: "0 \<le> ?y" "?y < n" using bijection_nth(2,3) [OF b x0 xn] np by simp_all
    have st: "array_store (perm_data (h ! R)) ?y x = Inr ?d1"
      using yr "1.prems"(8) by (simp add: array_store_def)
    have h1P: "?h1 ! P = h ! P" using "1.prems"(3) by simp
    have h1R: "?h1 ! R = (h ! R)\<lparr>perm_data := ?d1\<rparr>" using "1.prems"(1) by simp
    have pre: "\<forall>i. 0 \<le> i \<and> i < x + 1 \<longrightarrow> perm_data (?h1 ! R) ! nat (perm_data (?h1 ! P) ! nat i) = i"
    proof (intro allI impI)
      fix i assume i: "0 \<le> i \<and> i < x + 1"
      show "perm_data (?h1 ! R) ! nat (perm_data (?h1 ! P) ! nat i) = i"
      proof (cases "i = x")
        case True
        then show ?thesis using h1P h1R yr "1.prems"(8) by simp
      next
        case False
        then have ix: "0 \<le> i" "i < x" using i by simp_all
        have "?Pd ! nat i \<noteq> ?y"
          using bijection_inj [OF b ix(1) _ x0 xn] ix xn False by auto
        moreover have "0 \<le> ?Pd ! nat i"
          using bijection_nth(2) [OF b ix(1)] ix xn by simp
        ultimately have "nat (?Pd ! nat i) \<noteq> nat ?y" using yr by simp
        then show ?thesis using h1P h1R "1.prems"(9) ix by simp
      qed
    qed
    have "\<exists>d. inv_loop (x + 1) n ?h1 R P = Inr (?h1[R := (?h1 ! R)\<lparr>perm_data := d\<rparr>]) \<and> length d = nat n \<and>
         (\<forall>i. 0 \<le> i \<and> i < n \<longrightarrow> d ! nat (perm_data (?h1 ! P) ! nat i) = i)"
    proof (rule "1.IH" [OF True ev st])
      show "R < length ?h1" "P < length ?h1" "R \<noteq> P" using "1.prems" by simp_all
      show "is_bijection (?h1 ! P)" "perm_n (?h1 ! P) = n" using h1P b np by simp_all
      show "0 \<le> x + 1" "x + 1 \<le> n" using x0 True by simp_all
      show "length (perm_data (?h1 ! R)) = nat n" using h1R "1.prems"(8) by simp
      show "\<forall>i. 0 \<le> i \<and> i < x + 1 \<longrightarrow> perm_data (?h1 ! R) ! nat (perm_data (?h1 ! P) ! nat i) = i"
        using pre .
    qed
    then obtain d where d: "inv_loop (x + 1) n ?h1 R P = Inr (?h1[R := (?h1 ! R)\<lparr>perm_data := d\<rparr>])"
      "length d = nat n" "\<forall>i. 0 \<le> i \<and> i < n \<longrightarrow> d ! nat (perm_data (?h1 ! P) ! nat i) = i"
      by blast
    have "?h1[R := (?h1 ! R)\<lparr>perm_data := d\<rparr>] = h[R := (h ! R)\<lparr>perm_data := d\<rparr>]"
      using "1.prems"(1) by simp
    then have "inv_loop x n h R P = Inr (h[R := (h ! R)\<lparr>perm_data := d\<rparr>])"
      using True ev st d(1) by (simp add: inv_loop.simps [of x n h R P])
    then show ?thesis
      using d(2,3) h1P by auto
  qed
qed

lemma mul_loop_ok:
  "R < length h \<Longrightarrow> P < length h \<Longrightarrow> Q < length h \<Longrightarrow> R \<noteq> P \<Longrightarrow> R \<noteq> Q \<Longrightarrow>
   is_bijection (h ! P) \<Longrightarrow> is_bijection (h ! Q) \<Longrightarrow> perm_n (h ! P) = n \<Longrightarrow> perm_n (h ! Q) = n \<Longrightarrow>
   0 \<le> x \<Longrightarrow> x \<le> n \<Longrightarrow> length (perm_data (h ! R)) = nat n \<Longrightarrow>
   (\<forall>i. 0 \<le> i \<and> i < x \<longrightarrow> perm_data (h ! R) ! nat i = perm_data (h ! P) ! nat (perm_data (h ! Q) ! nat i)) \<Longrightarrow>
     \<exists>d. mul_loop x n h R P Q = Inr (h[R := (h ! R)\<lparr>perm_data := d\<rparr>]) \<and> length d = nat n \<and>
         (\<forall>i. 0 \<le> i \<and> i < n \<longrightarrow> d ! nat i = perm_data (h ! P) ! nat (perm_data (h ! Q) ! nat i))"
proof (induction x n h R P Q rule: mul_loop.induct)
  case (1 x n h R P Q)
  show ?case
  proof (cases "x < n")
    case False
    then have xn: "x = n" using "1.prems" by simp
    have "mul_loop x n h R P Q = Inr (h[R := (h ! R)\<lparr>perm_data := perm_data (h ! R)\<rparr>])"
      using False by (simp add: mul_loop.simps [of x n h R P Q])
    then show ?thesis
      using "1.prems" xn by blast
  next
    case True
    let ?Pd = "perm_data (h ! P)"
    let ?Qd = "perm_data (h ! Q)"
    let ?qx = "?Qd ! nat x"
    let ?y = "?Pd ! nat ?qx"
    let ?d1 = "(perm_data (h ! R))[nat x := ?y]"
    let ?h1 = "h[R := (h ! R)\<lparr>perm_data := ?d1\<rparr>]"
    have bp: "is_bijection (h ! P)" and np: "perm_n (h ! P) = n"
      and bq: "is_bijection (h ! Q)" and nq: "perm_n (h ! Q) = n" using "1.prems" by simp_all
    have x0: "0 \<le> x" and xq: "x < perm_n (h ! Q)" using "1.prems" True by simp_all
    have evq: "eval (h ! Q) x = Inr ?qx" using bijection_nth(1) [OF bq x0 xq] .
    have qr: "0 \<le> ?qx" "?qx < perm_n (h ! P)" using bijection_nth(2,3) [OF bq x0 xq] np nq by simp_all
    have evp: "eval (h ! P) ?qx = Inr ?y" using bijection_nth(1) [OF bp qr] .
    have st: "array_store (perm_data (h ! R)) x ?y = Inr ?d1"
      using x0 True "1.prems"(12) by (simp add: array_store_def)
    have h1P: "?h1 ! P = h ! P" using "1.prems"(4) by simp
    have h1Q: "?h1 ! Q = h ! Q" using "1.prems"(5) by simp
    have h1R: "?h1 ! R = (h ! R)\<lparr>perm_data := ?d1\<rparr>" using "1.prems"(1) by simp
    have pre: "\<forall>i. 0 \<le> i \<and> i < x + 1 \<longrightarrow>
        perm_data (?h1 ! R) ! nat i = perm_data (?h1 ! P) ! nat (perm_data (?h1 ! Q) ! nat i)"
    proof (intro allI impI)
      fix i assume i: "0 \<le> i \<and> i < x + 1"
      show "perm_data (?h1 ! R) ! nat i = perm_data (?h1 ! P) ! nat (perm_data (?h1 ! Q) ! nat i)"
      proof (cases "i = x")
        case True
        then show ?thesis using h1P h1Q h1R x0 \<open>x < n\<close> "1.prems"(12) by simp
      next
        case False
        then have ix: "0 \<le> i" "i < x" using i by simp_all
        then have "nat i \<noteq> nat x" by simp
        then show ?thesis using h1P h1Q h1R "1.prems"(13) ix by simp
      qed
    qed
    have "\<exists>d. mul_loop (x + 1) n ?h1 R P Q = Inr (?h1[R := (?h1 ! R)\<lparr>perm_data := d\<rparr>]) \<and> length d = nat n \<and>
         (\<forall>i. 0 \<le> i \<and> i < n \<longrightarrow> d ! nat i = perm_data (?h1 ! P) ! nat (perm_data (?h1 ! Q) ! nat i))"
    proof (rule "1.IH" [OF True evq evp st])
      show "R < length ?h1" "P < length ?h1" "Q < length ?h1" "R \<noteq> P" "R \<noteq> Q" using "1.prems" by simp_all
      show "is_bijection (?h1 ! P)" "perm_n (?h1 ! P) = n" using h1P bp np by simp_all
      show "is_bijection (?h1 ! Q)" "perm_n (?h1 ! Q) = n" using h1Q bq nq by simp_all
      show "0 \<le> x + 1" "x + 1 \<le> n" using x0 True by simp_all
      show "length (perm_data (?h1 ! R)) = nat n" using h1R "1.prems"(12) by simp
      show "\<forall>i. 0 \<le> i \<and> i < x + 1 \<longrightarrow>
        perm_data (?h1 ! R) ! nat i = perm_data (?h1 ! P) ! nat (perm_data (?h1 ! Q) ! nat i)"
        using pre .
    qed
    then obtain d where d: "mul_loop (x + 1) n ?h1 R P Q = Inr (?h1[R := (?h1 ! R)\<lparr>perm_data := d\<rparr>])"
      "length d = nat n"
      "\<forall>i. 0 \<le> i \<and> i < n \<longrightarrow> d ! nat i = perm_data (?h1 ! P) ! nat (perm_data (?h1 ! Q) ! nat i)"
      by blast
    have "?h1[R := (?h1 ! R)\<lparr>perm_data := d\<rparr>] = h[R := (h ! R)\<lparr>perm_data := d\<rparr>]"
      using "1.prems"(1) by simp
    then have "mul_loop x n h R P Q = Inr (h[R := (h ! R)\<lparr>perm_data := d\<rparr>])"
      using True evq evp st d(1) by (simp add: mul_loop.simps [of x n h R P Q])
    then show ?thesis
      using d(2,3) h1P h1Q by auto
  qed
qed

lemma inverse_key:
  assumes b: "is_bijection P" and len: "length d = nat (perm_n P)"
    and inv: "\<forall>i. 0 \<le> i \<and> i < perm_n P \<longrightarrow> d ! nat (perm_data P ! nat i) = i"
    and j: "0 \<le> j" "j < perm_n P"
  shows "0 \<le> d ! nat j \<and> d ! nat j < perm_n P \<and> perm_data P ! nat (d ! nat j) = j"
proof -
  obtain i where i: "0 \<le> i" "i < perm_n P" "perm_data P ! nat i = j"
    using bijection_surj [OF b j] by blast
  then have "d ! nat j = i" using inv by auto
  then show ?thesis using i by simp
qed

lemma inverse_is_bijection:
  assumes b: "is_bijection P" and len: "length d = nat (perm_n P)"
    and inv: "\<forall>i. 0 \<le> i \<and> i < perm_n P \<longrightarrow> d ! nat (perm_data P ! nat i) = i"
  shows "is_bijection \<lparr>perm_n = perm_n P, perm_data = d\<rparr>"
proof -
  let ?R = "\<lparr>perm_n = perm_n P, perm_data = d\<rparr>"
  have wfP: "wf_perm P" using b by (rule bijection_wf)
  then have wf: "wf_perm ?R" using len by (simp add: wf_perm_def)
  note key = inverse_key [OF b len inv]
  have rng: "\<forall>v \<in> set d. 0 \<le> v \<and> v < perm_n P"
  proof
    fix v assume "v \<in> set d"
    then obtain j where j: "j < length d" "d ! j = v" by (auto simp: in_set_conv_nth)
    then have "0 \<le> int j" "int j < perm_n P" using len by simp_all
    from key [OF this] j show "0 \<le> v \<and> v < perm_n P" by simp
  qed
  have "distinct d"
  proof (subst distinct_conv_nth, intro allI impI)
    fix j j' assume jj: "j < length d" "j' < length d" "j \<noteq> j'"
    have a: "perm_data P ! nat (d ! j) = int j"
      using key [of "int j"] jj(1) len by simp
    have a': "perm_data P ! nat (d ! j') = int j'"
      using key [of "int j'"] jj(2) len by simp
    show "d ! j \<noteq> d ! j'"
      using a a' jj(3) by auto
  qed
  then show ?thesis
    using rng wf by (simp add: bijection_iff)
qed

lemma inverse_round_trip:
  assumes b: "is_bijection P" and len: "length d = nat (perm_n P)"
    and inv: "\<forall>i. 0 \<le> i \<and> i < perm_n P \<longrightarrow> d ! nat (perm_data P ! nat i) = i"
    and x: "0 \<le> x" "x < perm_n P"
  shows "\<exists>y. eval P x = Inr y \<and> eval \<lparr>perm_n = perm_n P, perm_data = d\<rparr> y = Inr x"
    and "\<exists>y. eval \<lparr>perm_n = perm_n P, perm_data = d\<rparr> x = Inr y \<and> eval P y = Inr x"
proof -
  let ?R = "\<lparr>perm_n = perm_n P, perm_data = d\<rparr>"
  have bR: "is_bijection ?R" using inverse_is_bijection [OF b len inv] .
  have e: "eval P x = Inr (perm_data P ! nat x)"
    and r: "0 \<le> perm_data P ! nat x" "perm_data P ! nat x < perm_n P"
    using bijection_nth [OF b x] by simp_all
  have "eval ?R (perm_data P ! nat x) = Inr (d ! nat (perm_data P ! nat x))"
    using bijection_nth(1) [OF bR, of "perm_data P ! nat x"] r by simp
  then have "eval ?R (perm_data P ! nat x) = Inr x"
    using inv x by simp
  then show "\<exists>y. eval P x = Inr y \<and> eval ?R y = Inr x"
    using e by simp
  have k: "0 \<le> d ! nat x \<and> d ! nat x < perm_n P \<and> perm_data P ! nat (d ! nat x) = x"
    using inverse_key [OF b len inv x] .
  have "eval ?R x = Inr (d ! nat x)"
    using bijection_nth(1) [OF bR, of x] x by simp
  moreover have "eval P (d ! nat x) = Inr x"
    using bijection_nth(1) [OF b, of "d ! nat x"] k by simp
  ultimately show "\<exists>y. eval ?R x = Inr y \<and> eval P y = Inr x"
    by simp
qed

lemma compose_is_bijection:
  assumes bp: "is_bijection P" and bq: "is_bijection Q" and n: "perm_n Q = perm_n P"
    and len: "length d = nat (perm_n P)"
    and c: "\<forall>i. 0 \<le> i \<and> i < perm_n P \<longrightarrow> d ! nat i = perm_data P ! nat (perm_data Q ! nat i)"
  shows "is_bijection \<lparr>perm_n = perm_n P, perm_data = d\<rparr>"
proof -
  let ?R = "\<lparr>perm_n = perm_n P, perm_data = d\<rparr>"
  have wfP: "wf_perm P" using bp by (rule bijection_wf)
  then have wf: "wf_perm ?R" using len by (simp add: wf_perm_def)
  have el: "d ! j = perm_data P ! nat (perm_data Q ! j) \<and> 0 \<le> perm_data Q ! j \<and> perm_data Q ! j < perm_n P"
    if "j < length d" for j
  proof -
    have j: "0 \<le> int j" "int j < perm_n P" using that len by simp_all
    have "d ! nat (int j) = perm_data P ! nat (perm_data Q ! nat (int j))" using c j by blast
    moreover have "0 \<le> perm_data Q ! nat (int j)" "perm_data Q ! nat (int j) < perm_n Q"
      using bijection_nth(2,3) [OF bq, of "int j"] j n by simp_all
    ultimately show ?thesis using n by simp
  qed
  have rng: "\<forall>v \<in> set d. 0 \<le> v \<and> v < perm_n P"
  proof
    fix v assume "v \<in> set d"
    then obtain j where j: "j < length d" "d ! j = v" by (auto simp: in_set_conv_nth)
    then show "0 \<le> v \<and> v < perm_n P"
      using el [OF j(1)] bijection_nth(2,3) [OF bp, of "perm_data Q ! j"] by simp
  qed
  have "distinct d"
  proof (subst distinct_conv_nth, intro allI impI)
    fix j j' assume jj: "j < length d" "j' < length d" "j \<noteq> j'"
    show "d ! j \<noteq> d ! j'"
    proof
      assume eq: "d ! j = d ! j'"
      have "perm_data P ! nat (perm_data Q ! j) = perm_data P ! nat (perm_data Q ! j')"
        using eq el [OF jj(1)] el [OF jj(2)] by simp
      then have "perm_data Q ! j = perm_data Q ! j'"
        using bijection_inj [OF bp, of "perm_data Q ! j" "perm_data Q ! j'"] el [OF jj(1)] el [OF jj(2)]
        by simp
      then have "int j = int j'"
        using bijection_inj [OF bq, of "int j" "int j'"] jj(1,2) len n by simp
      then show False using jj(3) by simp
    qed
  qed
  then show ?thesis
    using rng wf by (simp add: bijection_iff)
qed

lemma prepareDim_length:
  assumes "wf_perm R" "0 \<le> n"
  shows "\<exists>R'. prepareDim (Some block) R n = Inr R' \<and> perm_n R' = n \<and> length (perm_data R') = nat n"
  using assms by (auto simp: prepareDim_def wf_perm_def)

lemma record_set_data:
  "perm_n R' = n \<Longrightarrow> R'\<lparr>perm_data := d\<rparr> = \<lparr>perm_n = n, perm_data = d\<rparr>"
  by (cases R') simp

lemma inv_distinct_ok:
  assumes "R < length h" "P < length h" "R \<noteq> P" "is_bijection (h ! P)" "wf_perm (h ! R)"
  shows "\<exists>d. inv_distinct (Some block) h R P = Inr (h[R := \<lparr>perm_n = perm_n (h ! P), perm_data = d\<rparr>]) \<and>
           length d = nat (perm_n (h ! P)) \<and>
           (\<forall>i. 0 \<le> i \<and> i < perm_n (h ! P) \<longrightarrow> d ! nat (perm_data (h ! P) ! nat i) = i)"
proof -
  let ?n = "perm_n (h ! P)"
  have n0: "0 \<le> ?n" using assms(4) bijection_wf [of "h ! P"] by (simp add: wf_perm_def)
  obtain R' where p: "prepareDim (Some block) (h ! R) ?n = Inr R'" "perm_n R' = ?n"
      "length (perm_data R') = nat ?n"
    using prepareDim_length [OF assms(5) n0] by blast
  let ?h1 = "h[R := R']"
  have h1P: "?h1 ! P = h ! P" using assms(3) by simp
  have h1R: "?h1 ! R = R'" using assms(1) by simp
  have "\<exists>d. inv_loop 0 ?n ?h1 R P = Inr (?h1[R := (?h1 ! R)\<lparr>perm_data := d\<rparr>]) \<and> length d = nat ?n \<and>
         (\<forall>i. 0 \<le> i \<and> i < ?n \<longrightarrow> d ! nat (perm_data (?h1 ! P) ! nat i) = i)"
  proof (rule inv_loop_ok)
    show "R < length ?h1" "P < length ?h1" "R \<noteq> P" using assms by simp_all
    show "is_bijection (?h1 ! P)" "perm_n (?h1 ! P) = ?n" using h1P assms(4) by simp_all
    show "(0 :: int) \<le> 0" "0 \<le> ?n" using n0 by simp_all
    show "length (perm_data (?h1 ! R)) = nat ?n" using h1R p(3) by simp
    show "\<forall>i. 0 \<le> i \<and> i < 0 \<longrightarrow> perm_data (?h1 ! R) ! nat (perm_data (?h1 ! P) ! nat i) = i" by simp
  qed
  then obtain d where d: "inv_loop 0 ?n ?h1 R P = Inr (?h1[R := (?h1 ! R)\<lparr>perm_data := d\<rparr>])"
    "length d = nat ?n" "\<forall>i. 0 \<le> i \<and> i < ?n \<longrightarrow> d ! nat (perm_data (?h1 ! P) ! nat i) = i"
    by blast
  have "?h1[R := (?h1 ! R)\<lparr>perm_data := d\<rparr>] = h[R := \<lparr>perm_n = ?n, perm_data = d\<rparr>]"
    using h1R record_set_data [OF p(2)] by simp
  then have "inv_distinct (Some block) h R P = Inr (h[R := \<lparr>perm_n = ?n, perm_data = d\<rparr>])"
    using p(1) d(1) by (simp add: inv_distinct_def Let_def)
  then show ?thesis
    using d(2,3) h1P by auto
qed

lemma Permutation_copy_ok:
  assumes "wf_perm P"
  shows "Permutation_copy (Some block) P = Inr P"
proof -
  have len: "length (perm_data P) = nat (perm_n P)" using assms by (rule wf_perm_length)
  show ?thesis
  proof (cases "perm_n P = 0")
    case True
    then show ?thesis using len by (cases P) (simp add: Permutation_copy_def prepareDim_def)
  next
    case False
    then show ?thesis using len by (cases P) (simp add: Permutation_copy_def prepareDim_def)
  qed
qed

lemma inv_ok:
  assumes "R < length h" "P < length h" "is_bijection (h ! P)" "wf_perm (h ! R)"
  shows "\<exists>d. inv_perm (Some block) h R P = Inr (h[R := \<lparr>perm_n = perm_n (h ! P), perm_data = d\<rparr>]) \<and>
           length d = nat (perm_n (h ! P)) \<and>
           (\<forall>i. 0 \<le> i \<and> i < perm_n (h ! P) \<longrightarrow> d ! nat (perm_data (h ! P) ! nat i) = i)"
proof (cases "R = P")
  case False
  then show ?thesis
    using inv_distinct_ok [OF assms(1,2) False assms(3,4)] by (simp add: inv_perm_def)
next
  case True
  let ?tP = "h ! P"
  let ?h0 = "h @ [?tP]"
  have cp: "Permutation_copy (Some block) (h ! P) = Inr ?tP"
    using assms(3) by (intro Permutation_copy_ok bijection_wf)
  have h0P: "?h0 ! length h = ?tP" by simp
  have h0R: "?h0 ! R = h ! R" using assms(1) by (simp add: nth_append)
  have "\<exists>d. inv_distinct (Some block) ?h0 R (length h) =
          Inr (?h0[R := \<lparr>perm_n = perm_n (?h0 ! length h), perm_data = d\<rparr>]) \<and>
           length d = nat (perm_n (?h0 ! length h)) \<and>
           (\<forall>i. 0 \<le> i \<and> i < perm_n (?h0 ! length h) \<longrightarrow> d ! nat (perm_data (?h0 ! length h) ! nat i) = i)"
  proof (rule inv_distinct_ok)
    show "R < length ?h0" "length h < length ?h0" "R \<noteq> length h" using assms(1) by simp_all
    show "is_bijection (?h0 ! length h)" using h0P assms(3) by simp
    show "wf_perm (?h0 ! R)" using h0R assms(4) by simp
  qed
  then obtain d where d: "inv_distinct (Some block) ?h0 R (length h) =
          Inr (?h0[R := \<lparr>perm_n = perm_n ?tP, perm_data = d\<rparr>])"
      "length d = nat (perm_n ?tP)"
      "\<forall>i. 0 \<le> i \<and> i < perm_n ?tP \<longrightarrow> d ! nat (perm_data ?tP ! nat i) = i"
    using h0P by auto
  have "butlast (?h0[R := \<lparr>perm_n = perm_n ?tP, perm_data = d\<rparr>]) = h[R := \<lparr>perm_n = perm_n ?tP, perm_data = d\<rparr>]"
    using assms(1) by (simp add: list_update_append1)
  then have "inv_perm (Some block) h R P = Inr (h[R := \<lparr>perm_n = perm_n ?tP, perm_data = d\<rparr>])"
    using True cp d(1) by (simp add: inv_perm_def)
  then show ?thesis
    using d(2,3) by blast
qed

lemma mul_distinct_ok:
  assumes "R < length h" "P < length h" "Q < length h" "R \<noteq> P" "R \<noteq> Q"
    "is_bijection (h ! P)" "is_bijection (h ! Q)" "perm_n (h ! Q) = perm_n (h ! P)" "wf_perm (h ! R)"
  shows "\<exists>d. mul_distinct (Some block) h R P Q = Inr (h[R := \<lparr>perm_n = perm_n (h ! P), perm_data = d\<rparr>]) \<and>
           length d = nat (perm_n (h ! P)) \<and>
           (\<forall>i. 0 \<le> i \<and> i < perm_n (h ! P) \<longrightarrow>
              d ! nat i = perm_data (h ! P) ! nat (perm_data (h ! Q) ! nat i))"
proof -
  let ?n = "perm_n (h ! P)"
  have n0: "0 \<le> ?n" using assms(6) bijection_wf [of "h ! P"] by (simp add: wf_perm_def)
  obtain R' where p: "prepareDim (Some block) (h ! R) ?n = Inr R'" "perm_n R' = ?n"
      "length (perm_data R') = nat ?n"
    using prepareDim_length [OF assms(9) n0] by blast
  let ?h1 = "h[R := R']"
  have h1P: "?h1 ! P = h ! P" using assms(4) by simp
  have h1Q: "?h1 ! Q = h ! Q" using assms(5) by simp
  have h1R: "?h1 ! R = R'" using assms(1) by simp
  have "\<exists>d. mul_loop 0 ?n ?h1 R P Q = Inr (?h1[R := (?h1 ! R)\<lparr>perm_data := d\<rparr>]) \<and> length d = nat ?n \<and>
         (\<forall>i. 0 \<le> i \<and> i < ?n \<longrightarrow> d ! nat i = perm_data (?h1 ! P) ! nat (perm_data (?h1 ! Q) ! nat i))"
  proof (rule mul_loop_ok)
    show "R < length ?h1" "P < length ?h1" "Q < length ?h1" "R \<noteq> P" "R \<noteq> Q" using assms by simp_all
    show "is_bijection (?h1 ! P)" "perm_n (?h1 ! P) = ?n" using h1P assms(6) by simp_all
    show "is_bijection (?h1 ! Q)" "perm_n (?h1 ! Q) = ?n" using h1Q assms(7,8) by simp_all
    show "(0 :: int) \<le> 0" "0 \<le> ?n" using n0 by simp_all
    show "length (perm_data (?h1 ! R)) = nat ?n" using h1R p(3) by simp
    show "\<forall>i. 0 \<le> i \<and> i < 0 \<longrightarrow>
        perm_data (?h1 ! R) ! nat i = perm_data (?h1 ! P) ! nat (perm_data (?h1 ! Q) ! nat i)" by simp
  qed
  then obtain d where d: "mul_loop 0 ?n ?h1 R P Q = Inr (?h1[R := (?h1 ! R)\<lparr>perm_data := d\<rparr>])"
    "length d = nat ?n"
    "\<forall>i. 0 \<le> i \<and> i < ?n \<longrightarrow> d ! nat i = perm_data (?h1 ! P) ! nat (perm_data (?h1 ! Q) ! nat i)"
    by blast
  have "?h1[R := (?h1 ! R)\<lparr>perm_data := d\<rparr>] = h[R := \<lparr>perm_n = ?n, perm_data = d\<rparr>]"
    using h1R record_set_data [OF p(2)] by simp
  then have "mul_distinct (Some block) h R P Q = Inr (h[R := \<lparr>perm_n = ?n, perm_data = d\<rparr>])"
    using p(1) d(1) assms(8) by (simp add: mul_distinct_def Let_def)
  then show ?thesis
    using d(2,3) h1P h1Q by auto
qed

lemma record_rebuild: "\<lparr>perm_n = perm_n X, perm_data = perm_data X\<rparr> = X"
  by (cases X) simp

lemma mul_ok:
  assumes "R < length h" "P < length h" "Q < length h"
    "is_bijection (h ! P)" "is_bijection (h ! Q)" "perm_n (h ! Q) = perm_n (h ! P)" "wf_perm (h ! R)"
  shows "\<exists>d. mul (Some block) h R P Q = Inr (h[R := \<lparr>perm_n = perm_n (h ! P), perm_data = d\<rparr>]) \<and>
           length d = nat (perm_n (h ! P)) \<and>
           (\<forall>i. 0 \<le> i \<and> i < perm_n (h ! P) \<longrightarrow>
              d ! nat i = perm_data (h ! P) ! nat (perm_data (h ! Q) ! nat i))"
proof (cases "R = P \<or> R = Q")
  case False
  then show ?thesis
    using mul_distinct_ok [OF assms(1-3) _ _ assms(4-7)] by (simp add: mul_def)
next
  case True
  let ?tR = "\<lparr>perm_n = 0, perm_data = []\<rparr>"
  let ?h0 = "h @ [?tR]"
  let ?n = "perm_n (h ! P)"
  have h0P: "?h0 ! P = h ! P" using assms(2) by (simp add: nth_append)
  have h0Q: "?h0 ! Q = h ! Q" using assms(3) by (simp add: nth_append)
  have "\<exists>d. mul_distinct (Some block) ?h0 (length h) P Q =
          Inr (?h0[length h := \<lparr>perm_n = perm_n (?h0 ! P), perm_data = d\<rparr>]) \<and>
           length d = nat (perm_n (?h0 ! P)) \<and>
           (\<forall>i. 0 \<le> i \<and> i < perm_n (?h0 ! P) \<longrightarrow>
              d ! nat i = perm_data (?h0 ! P) ! nat (perm_data (?h0 ! Q) ! nat i))"
  proof (rule mul_distinct_ok)
    show "length h < length ?h0" "P < length ?h0" "Q < length ?h0" "length h \<noteq> P" "length h \<noteq> Q"
      using assms(2,3) by simp_all
    show "is_bijection (?h0 ! P)" "is_bijection (?h0 ! Q)" "perm_n (?h0 ! Q) = perm_n (?h0 ! P)"
      using h0P h0Q assms(4-6) by simp_all
    show "wf_perm (?h0 ! length h)" by (simp add: wf_perm_def INT_MAX_def)
  qed
  then obtain d where d: "mul_distinct (Some block) ?h0 (length h) P Q =
          Inr (?h0[length h := \<lparr>perm_n = ?n, perm_data = d\<rparr>])"
      "length d = nat ?n"
      "\<forall>i. 0 \<le> i \<and> i < ?n \<longrightarrow> d ! nat i = perm_data (h ! P) ! nat (perm_data (h ! Q) ! nat i)"
    using h0P h0Q by auto
  let ?new = "\<lparr>perm_n = ?n, perm_data = d\<rparr>"
  have h1: "?h0[length h := ?new] = h @ [?new]" by simp
  have "(h[R := ?new] @ [?new])[length (h[R := ?new]) := h ! R] = h[R := ?new] @ [h ! R]"
    by (rule list_update_length)
  then have "(h[R := ?new] @ [?new])[length h := h ! R] = h[R := ?new] @ [h ! R]"
    by simp
  then have "swap (h @ [?new]) R (length h) = h[R := ?new] @ [h ! R]"
    using assms(1) by (simp add: swap_def Let_def nth_append list_update_append1 record_rebuild)
  then have "butlast (swap (h @ [?new]) R (length h)) = h[R := ?new]"
    by simp
  then have "mul (Some block) h R P Q = Inr (h[R := ?new])"
    using True d(1) h1 by (simp add: mul_def Let_def)
  then show ?thesis
    using d(2,3) by blast
qed

lemma swap_ok:
  assumes "P < length h" "Q < length h"
  shows "swap h P Q = h[P := h ! Q, Q := h ! P]"
  using assms by (simp add: swap_def Let_def record_rebuild)

lemma valid_store_update:
  "valid_store h \<Longrightarrow> is_bijection X \<Longrightarrow> valid_store (h[R := X])"
proof -
  assume v: "valid_store h" and b: "is_bijection X"
  have "is_bijection (h[R := X] ! i)" if "i < length h" for i
  proof (cases "i = R")
    case True
    then show ?thesis using that b by simp
  next
    case False
    then show ?thesis using that v by (simp add: valid_store_def)
  qed
  then show ?thesis by (simp add: valid_store_def)
qed

lemma upt_numeral_unfold:
  "[m..<numeral k] = (if m < numeral k then m # [Suc m..<numeral k] else [])"
  by (rule upt_rec)

lemmas perm_eval_simps =
  setDimension_def setDimension_loop.simps prepareDim_def eval_def exchange_def random_def
  random_loop.simps swap_def mul_def mul_distinct_def mul_loop.simps inv_perm_def inv_distinct_def
  inv_loop.simps Permutation_copy_def array_read_def array_store_def int32_def uint32_def
  demo_rand32_def upt_numeral_unfold Let_def

lemma demo_bijections:
  "is_bijection \<lparr>perm_n = 3, perm_data = [1, 2, 0]\<rparr>"
  "is_bijection \<lparr>perm_n = 3, perm_data = [0, 2, 1]\<rparr>"
  "is_bijection \<lparr>perm_n = 3, perm_data = [2, 0, 1]\<rparr>"
  "is_bijection \<lparr>perm_n = 3, perm_data = [1, 0, 2]\<rparr>"
  "is_bijection \<lparr>perm_n = 3, perm_data = [0, 1, 2]\<rparr>"
proof -
  have wf: "wf_perm \<lparr>perm_n = 3, perm_data = d\<rparr>" if "length d = 3" for d
    using that by (simp add: wf_perm_def INT_MAX_def)
  show "is_bijection \<lparr>perm_n = 3, perm_data = [1, 2, 0]\<rparr>"
    "is_bijection \<lparr>perm_n = 3, perm_data = [0, 2, 1]\<rparr>"
    "is_bijection \<lparr>perm_n = 3, perm_data = [2, 0, 1]\<rparr>"
    "is_bijection \<lparr>perm_n = 3, perm_data = [1, 0, 2]\<rparr>"
    "is_bijection \<lparr>perm_n = 3, perm_data = [0, 1, 2]\<rparr>"
    by (simp_all add: bijection_iff wf)
qed

text \<open>
  C6: every operation keeps the value array a bijection. From objects whose arrays hold
  each of \<open>0, \<dots>, n - 1\<close> exactly once (a store of such objects for the static functions),
  with \<^verbatim>\<open>malloc\<close> returning a block where it is called: \<^verbatim>\<open>setDimension(m)\<close> for
  \<open>0 \<le> m \<le> INT_MAX\<close>, \<^verbatim>\<open>exchange\<close> with arguments in range, \<^verbatim>\<open>random\<close> for every generator
  \<open>rand32\<close> and every state of it, \<^verbatim>\<open>mul\<close> on equal dimensions, \<^verbatim>\<open>inv\<close> and \<^verbatim>\<open>swap\<close>,
  with the references aliased or not, all return, and every object is a bijection again.
\<close>

theorem operations_preserve_bijectivity:
  "(wf_perm P \<and> 0 \<le> m \<and> m \<le> INT_MAX \<longrightarrow>
      (\<exists>P'. setDimension (Some block) P m = Inr P' \<and> is_bijection P' \<and> perm_n P' = m)) \<and>
   (is_bijection P \<and> 0 \<le> x0 \<and> x0 < perm_n P \<and> 0 \<le> x1 \<and> x1 < perm_n P \<longrightarrow>
      (\<exists>P'. exchange P x0 x1 = Inr P' \<and> is_bijection P' \<and> perm_n P' = perm_n P)) \<and>
   (is_bijection P \<longrightarrow>
      (\<exists>P' g'. random rand32 tryRandom P g = Inr (P', g') \<and> is_bijection P' \<and> perm_n P' = perm_n P)) \<and>
   (valid_store h \<and> R < length h \<and> A < length h \<and> B < length h \<and> perm_n (h ! B) = perm_n (h ! A) \<longrightarrow>
      (\<exists>h'. mul (Some block) h R A B = Inr h' \<and> valid_store h' \<and> length h' = length h)) \<and>
   (valid_store h \<and> R < length h \<and> A < length h \<longrightarrow>
      (\<exists>h'. inv_perm (Some block) h R A = Inr h' \<and> valid_store h' \<and> length h' = length h)) \<and>
   (valid_store h \<and> A < length h \<and> B < length h \<longrightarrow>
      valid_store (swap h A B) \<and> length (swap h A B) = length h)"
proof (intro conjI impI)
  assume "wf_perm P \<and> 0 \<le> m \<and> m \<le> INT_MAX"
  then show "\<exists>P'. setDimension (Some block) P m = Inr P' \<and> is_bijection P' \<and> perm_n P' = m"
    using setDimension_ok [of P m block] identity_is_bijection [of m] by simp
next
  assume "is_bijection P \<and> 0 \<le> x0 \<and> x0 < perm_n P \<and> 0 \<le> x1 \<and> x1 < perm_n P"
  then show "\<exists>P'. exchange P x0 x1 = Inr P' \<and> is_bijection P' \<and> perm_n P' = perm_n P"
    using exchange_preserves [of P x0 x1] by simp
next
  assume "is_bijection P"
  then show "\<exists>P' g'. random rand32 tryRandom P g = Inr (P', g') \<and> is_bijection P' \<and> perm_n P' = perm_n P"
    by (rule random_preserves)
next
  assume a: "valid_store h \<and> R < length h \<and> A < length h \<and> B < length h \<and> perm_n (h ! B) = perm_n (h ! A)"
  then have b: "is_bijection (h ! A)" "is_bijection (h ! B)" "wf_perm (h ! R)"
    by (simp_all add: valid_store_def bijection_wf)
  obtain d where d: "mul (Some block) h R A B = Inr (h[R := \<lparr>perm_n = perm_n (h ! A), perm_data = d\<rparr>])"
    "length d = nat (perm_n (h ! A))"
    "\<forall>i. 0 \<le> i \<and> i < perm_n (h ! A) \<longrightarrow> d ! nat i = perm_data (h ! A) ! nat (perm_data (h ! B) ! nat i)"
    using mul_ok [of R h A B block] a b by auto
  have "is_bijection \<lparr>perm_n = perm_n (h ! A), perm_data = d\<rparr>"
    using compose_is_bijection [OF b(1,2) _ d(2,3)] a by simp
  then have "valid_store (h[R := \<lparr>perm_n = perm_n (h ! A), perm_data = d\<rparr>])"
    using a by (simp add: valid_store_update)
  then show "\<exists>h'. mul (Some block) h R A B = Inr h' \<and> valid_store h' \<and> length h' = length h"
    using d(1) by simp
next
  assume a: "valid_store h \<and> R < length h \<and> A < length h"
  then have b: "is_bijection (h ! A)" "wf_perm (h ! R)"
    by (simp_all add: valid_store_def bijection_wf)
  obtain d where d: "inv_perm (Some block) h R A = Inr (h[R := \<lparr>perm_n = perm_n (h ! A), perm_data = d\<rparr>])"
    "length d = nat (perm_n (h ! A))"
    "\<forall>i. 0 \<le> i \<and> i < perm_n (h ! A) \<longrightarrow> d ! nat (perm_data (h ! A) ! nat i) = i"
    using inv_ok [of R h A block] a b by auto
  have "is_bijection \<lparr>perm_n = perm_n (h ! A), perm_data = d\<rparr>"
    using inverse_is_bijection [OF b(1) d(2,3)] .
  then have "valid_store (h[R := \<lparr>perm_n = perm_n (h ! A), perm_data = d\<rparr>])"
    using a by (simp add: valid_store_update)
  then show "\<exists>h'. inv_perm (Some block) h R A = Inr h' \<and> valid_store h' \<and> length h' = length h"
    using d(1) by simp
next
  assume a: "valid_store h \<and> A < length h \<and> B < length h"
  then have "swap h A B = h[A := h ! B, B := h ! A]"
    by (simp add: swap_ok)
  moreover have "valid_store (h[A := h ! B, B := h ! A])"
    using a by (intro valid_store_update) (simp_all add: valid_store_def)
  ultimately show "valid_store (swap h A B)" "length (swap h A B) = length h"
    by simp_all
qed

text \<open>
  C7: for a bijection \<open>P\<close> (the object at \<open>A\<close>) of dimension \<open>n\<close>, \<^verbatim>\<open>inv(R, P)\<close> returns and
  leaves in \<open>R\<close> a bijection of dimension \<open>n\<close> with \<open>R(P(x)) = x\<close> and \<open>P(R(x)) = x\<close> for all
  \<open>0 \<le> x < n\<close>, \<open>P\<close> being the permutation before the call; no other object changes.
  \<open>R = A\<close> is allowed: \<^verbatim>\<open>inv(P, P)\<close> replaces \<open>P\<close> by its inverse.
\<close>

theorem inv_round_trip:
  "R < length h \<and> A < length h \<and> is_bijection (h ! A) \<and> wf_perm (h ! R) \<longrightarrow>
     (\<exists>h'. inv_perm (Some block) h R A = Inr h' \<and> length h' = length h \<and>
           (\<forall>i < length h. i \<noteq> R \<longrightarrow> h' ! i = h ! i) \<and>
           perm_n (h' ! R) = perm_n (h ! A) \<and> is_bijection (h' ! R) \<and>
           (\<forall>x. 0 \<le> x \<and> x < perm_n (h ! A) \<longrightarrow>
              (\<exists>y. eval (h ! A) x = Inr y \<and> eval (h' ! R) y = Inr x) \<and>
              (\<exists>y. eval (h' ! R) x = Inr y \<and> eval (h ! A) y = Inr x)))"
proof
  assume a: "R < length h \<and> A < length h \<and> is_bijection (h ! A) \<and> wf_perm (h ! R)"
  then have b: "is_bijection (h ! A)" by simp
  obtain d where d: "inv_perm (Some block) h R A = Inr (h[R := \<lparr>perm_n = perm_n (h ! A), perm_data = d\<rparr>])"
    "length d = nat (perm_n (h ! A))"
    "\<forall>i. 0 \<le> i \<and> i < perm_n (h ! A) \<longrightarrow> d ! nat (perm_data (h ! A) ! nat i) = i"
    using inv_ok [of R h A block] a by auto
  let ?new = "\<lparr>perm_n = perm_n (h ! A), perm_data = d\<rparr>"
  let ?h' = "h[R := ?new]"
  have r: "?h' ! R = ?new" using a by simp
  have bn: "is_bijection ?new"
    using inverse_is_bijection [OF b d(2,3)] .
  have rt: "(\<exists>y. eval (h ! A) x = Inr y \<and> eval ?new y = Inr x) \<and>
            (\<exists>y. eval ?new x = Inr y \<and> eval (h ! A) y = Inr x)"
    if "0 \<le> x \<and> x < perm_n (h ! A)" for x
    using inverse_round_trip [OF b d(2,3), of x] that by simp
  have "length ?h' = length h \<and> (\<forall>i < length h. i \<noteq> R \<longrightarrow> ?h' ! i = h ! i) \<and>
        perm_n (?h' ! R) = perm_n (h ! A) \<and> is_bijection (?h' ! R) \<and>
        (\<forall>x. 0 \<le> x \<and> x < perm_n (h ! A) \<longrightarrow>
              (\<exists>y. eval (h ! A) x = Inr y \<and> eval (?h' ! R) y = Inr x) \<and>
              (\<exists>y. eval (?h' ! R) x = Inr y \<and> eval (h ! A) y = Inr x))"
    using r bn rt by simp
  then show "\<exists>h'. inv_perm (Some block) h R A = Inr h' \<and> length h' = length h \<and>
           (\<forall>i < length h. i \<noteq> R \<longrightarrow> h' ! i = h ! i) \<and>
           perm_n (h' ! R) = perm_n (h ! A) \<and> is_bijection (h' ! R) \<and>
           (\<forall>x. 0 \<le> x \<and> x < perm_n (h ! A) \<longrightarrow>
              (\<exists>y. eval (h ! A) x = Inr y \<and> eval (h' ! R) y = Inr x) \<and>
              (\<exists>y. eval (h' ! R) x = Inr y \<and> eval (h ! A) y = Inr x))"
    using d(1) by blast
qed

theorem inv_round_trip_witness:
  "(0 :: nat) < length [\<lparr>perm_n = 3, perm_data = [1, 2, 0]\<rparr>] \<and>
   is_bijection ([\<lparr>perm_n = 3, perm_data = [1, 2, 0]\<rparr>] ! 0) \<and>
   wf_perm ([\<lparr>perm_n = 3, perm_data = [1, 2, 0]\<rparr>] ! 0) \<and>
   inv_perm (Some (\<lambda>i. 99)) [\<lparr>perm_n = 3, perm_data = [1, 2, 0]\<rparr>] 0 0 = Inr [\<lparr>perm_n = 3, perm_data = [2, 0, 1]\<rparr>] \<and>
   eval \<lparr>perm_n = 3, perm_data = [1, 2, 0]\<rparr> 0 = Inr 1 \<and>
   eval \<lparr>perm_n = 3, perm_data = [2, 0, 1]\<rparr> 1 = Inr 0 \<and>
   eval \<lparr>perm_n = 3, perm_data = [2, 0, 1]\<rparr> 0 = Inr 2 \<and>
   eval \<lparr>perm_n = 3, perm_data = [1, 2, 0]\<rparr> 2 = Inr 0 \<and>
   is_bijection \<lparr>perm_n = 3, perm_data = [2, 0, 1]\<rparr>"
proof -
  have h: "(0 :: nat) < length [\<lparr>perm_n = 3, perm_data = [1, 2, 0]\<rparr>]"
    "is_bijection ([\<lparr>perm_n = 3, perm_data = [1, 2, 0]\<rparr>] ! 0)"
    "wf_perm ([\<lparr>perm_n = 3, perm_data = [1, 2, 0]\<rparr>] ! 0)"
    using demo_bijections(1) by (simp_all add: bijection_wf)
  have v: "inv_perm (Some (\<lambda>i. 99)) [\<lparr>perm_n = 3, perm_data = [1, 2, 0]\<rparr>] 0 0 = Inr [\<lparr>perm_n = 3, perm_data = [2, 0, 1]\<rparr>]"
    by (simp add: perm_eval_simps)
  have e: "eval \<lparr>perm_n = 3, perm_data = [1, 2, 0]\<rparr> 0 = Inr 1"
    "eval \<lparr>perm_n = 3, perm_data = [2, 0, 1]\<rparr> 1 = Inr 0"
    "eval \<lparr>perm_n = 3, perm_data = [2, 0, 1]\<rparr> 0 = Inr 2"
    "eval \<lparr>perm_n = 3, perm_data = [1, 2, 0]\<rparr> 2 = Inr 0"
    by (simp_all add: eval_def array_read_def)
  from inv_round_trip [where h = "[\<lparr>perm_n = 3, perm_data = [1, 2, 0]\<rparr>]" and R = 0 and A = 0
      and block = "\<lambda>i. 99"] h
  obtain h' where "inv_perm (Some (\<lambda>i. 99)) [\<lparr>perm_n = 3, perm_data = [1, 2, 0]\<rparr>] 0 0 = Inr h'"
    and "is_bijection (h' ! 0)"
    by blast
  then have "h' = [\<lparr>perm_n = 3, perm_data = [2, 0, 1]\<rparr>]" "is_bijection (h' ! 0)"
    using v by simp_all
  then have "is_bijection \<lparr>perm_n = 3, perm_data = [2, 0, 1]\<rparr>"
    by simp
  then show ?thesis
    using h v e by simp
qed

theorem operations_preserve_bijectivity_witness:
  "wf_perm \<lparr>perm_n = 3, perm_data = [1, 2, 0]\<rparr> \<and> (0 :: int) \<le> 3 \<and> 3 \<le> INT_MAX \<and>
   setDimension (Some (\<lambda>i. 99)) \<lparr>perm_n = 3, perm_data = [1, 2, 0]\<rparr> 3
     = Inr \<lparr>perm_n = 3, perm_data = [0, 1, 2]\<rparr> \<and>
   is_bijection \<lparr>perm_n = 3, perm_data = [1, 2, 0]\<rparr> \<and>
   (0 :: int) \<le> 0 \<and> 0 < perm_n \<lparr>perm_n = 3, perm_data = [1, 2, 0]\<rparr> \<and>
   (0 :: int) \<le> 2 \<and> 2 < perm_n \<lparr>perm_n = 3, perm_data = [1, 2, 0]\<rparr> \<and>
   exchange \<lparr>perm_n = 3, perm_data = [1, 2, 0]\<rparr> 0 2 = Inr \<lparr>perm_n = 3, perm_data = [0, 2, 1]\<rparr> \<and>
   random demo_rand32 True \<lparr>perm_n = 3, perm_data = [1, 2, 0]\<rparr> 0
     = Inr (\<lparr>perm_n = 3, perm_data = [2, 1, 0]\<rparr>, 3) \<and>
   valid_store [\<lparr>perm_n = 3, perm_data = [1, 2, 0]\<rparr>, \<lparr>perm_n = 3, perm_data = [0, 2, 1]\<rparr>] \<and>
   mul (Some (\<lambda>i. 99)) [\<lparr>perm_n = 3, perm_data = [1, 2, 0]\<rparr>, \<lparr>perm_n = 3, perm_data = [0, 2, 1]\<rparr>] 0 0 1
     = Inr [\<lparr>perm_n = 3, perm_data = [1, 0, 2]\<rparr>, \<lparr>perm_n = 3, perm_data = [0, 2, 1]\<rparr>] \<and>
   inv_perm (Some (\<lambda>i. 99)) [\<lparr>perm_n = 3, perm_data = [1, 2, 0]\<rparr>, \<lparr>perm_n = 3, perm_data = [0, 2, 1]\<rparr>] 0 0
     = Inr [\<lparr>perm_n = 3, perm_data = [2, 0, 1]\<rparr>, \<lparr>perm_n = 3, perm_data = [0, 2, 1]\<rparr>] \<and>
   swap [\<lparr>perm_n = 3, perm_data = [1, 2, 0]\<rparr>, \<lparr>perm_n = 3, perm_data = [0, 2, 1]\<rparr>] 0 1
     = [\<lparr>perm_n = 3, perm_data = [0, 2, 1]\<rparr>, \<lparr>perm_n = 3, perm_data = [1, 2, 0]\<rparr>] \<and>
   is_bijection \<lparr>perm_n = 3, perm_data = [2, 1, 0]\<rparr> \<and>
   valid_store [\<lparr>perm_n = 3, perm_data = [1, 0, 2]\<rparr>, \<lparr>perm_n = 3, perm_data = [0, 2, 1]\<rparr>]"
proof -
  let ?P = "\<lparr>perm_n = 3, perm_data = [1, 2, 0]\<rparr>"
  let ?Q = "\<lparr>perm_n = 3, perm_data = [0, 2, 1]\<rparr>"
  have b: "is_bijection ?P" "is_bijection ?Q"
    using demo_bijections by simp_all
  have wf: "wf_perm ?P" "(0 :: int) \<le> 3" "3 \<le> INT_MAX"
    using b(1) by (simp_all add: bijection_wf INT_MAX_def)
  have r: "(0 :: int) \<le> 0" "0 < perm_n ?P" "(0 :: int) \<le> 2" "2 < perm_n ?P"
    by simp_all
  have vs: "valid_store [?P, ?Q]"
    using b by (simp add: valid_store_def less_Suc_eq)
  have ix: "(0 :: nat) < length [?P, ?Q]" "(1 :: nat) < length [?P, ?Q]" "perm_n ([?P, ?Q] ! 1) = perm_n ([?P, ?Q] ! 0)"
    by simp_all
  have v1: "setDimension (Some (\<lambda>i. 99)) ?P 3 = Inr \<lparr>perm_n = 3, perm_data = [0, 1, 2]\<rparr>"
    by (simp add: perm_eval_simps)
  have v2: "exchange ?P 0 2 = Inr ?Q"
    by (simp add: perm_eval_simps)
  have v3: "random demo_rand32 True ?P 0 = Inr (\<lparr>perm_n = 3, perm_data = [2, 1, 0]\<rparr>, 3)"
    by (simp add: perm_eval_simps)
  have v4: "mul (Some (\<lambda>i. 99)) [?P, ?Q] 0 0 1 = Inr [\<lparr>perm_n = 3, perm_data = [1, 0, 2]\<rparr>, ?Q]"
    by (simp add: perm_eval_simps)
  have v5: "inv_perm (Some (\<lambda>i. 99)) [?P, ?Q] 0 0 = Inr [\<lparr>perm_n = 3, perm_data = [2, 0, 1]\<rparr>, ?Q]"
    by (simp add: perm_eval_simps)
  have v6: "swap [?P, ?Q] 0 1 = [?Q, ?P]"
    by (simp add: perm_eval_simps)
  note t = operations_preserve_bijectivity [where P = ?P and m = 3 and block = "\<lambda>i. 99" and ?x0.0 = 0 and ?x1.0 = 2
      and ?rand32.0 = demo_rand32 and tryRandom = True and g = 0 and h = "[?P, ?Q]" and R = 0 and A = 0 and B = 1]
  have "\<exists>P' g'. random demo_rand32 True ?P 0 = Inr (P', g') \<and> is_bijection P' \<and> perm_n P' = perm_n ?P"
    using t b(1) by blast
  then have c3: "is_bijection \<lparr>perm_n = 3, perm_data = [2, 1, 0]\<rparr>"
    using v3 by simp
  have "\<exists>h'. mul (Some (\<lambda>i. 99)) [?P, ?Q] 0 0 1 = Inr h' \<and> valid_store h' \<and> length h' = length [?P, ?Q]"
    using t vs ix by blast
  then have c4: "valid_store [\<lparr>perm_n = 3, perm_data = [1, 0, 2]\<rparr>, ?Q]"
    using v4 by simp
  show ?thesis
    by (intro conjI wf b r vs v1 v2 v3 v4 v5 v6 c3 c4)
qed

end
